theory Spec2Isabelle
  imports Complex_Main "HOL-Library.Sublist" "HOL-Library.Multiset"
begin

section \<open>Text primitives\<close>

text \<open>
  A Python \<open>str\<close> is modelled as a \<open>string\<close>: the list of its characters, one
  \<open>char\<close> per code point, for code points 0 to 255. \<open>length\<close> is Python's \<open>len\<close>.
  The character classes below are the ones Python's \<open>str.strip\<close> and the \<open>re\<close>
  module (\<open>\s\<close>, \<open>\w\<close> on \<open>str\<close> patterns) use, restricted to that range.
\<close>

definition nl :: char where
  "nl = CHR 0x0A"

definition is_space :: "char \<Rightarrow> bool" where
  "is_space c = (let n = (of_char c :: nat) in
     (9 \<le> n \<and> n \<le> 13) \<or> (28 \<le> n \<and> n \<le> 32) \<or> n = 133 \<or> n = 160)"

definition is_word :: "char \<Rightarrow> bool" where
  "is_word c = (let n = (of_char c :: nat) in
     (48 \<le> n \<and> n \<le> 57) \<or> (65 \<le> n \<and> n \<le> 90) \<or> n = 95 \<or> (97 \<le> n \<and> n \<le> 122)
     \<or> n = 170 \<or> n = 178 \<or> n = 179 \<or> n = 181 \<or> n = 185 \<or> n = 186
     \<or> (188 \<le> n \<and> n \<le> 190) \<or> (192 \<le> n \<and> n \<le> 214)
     \<or> (216 \<le> n \<and> n \<le> 246) \<or> (248 \<le> n \<and> n \<le> 255))"

text \<open>\<open>content.split("\n")\<close>: never the empty list; the empty text gives one empty line.\<close>

fun split_nl :: "string \<Rightarrow> string list" where
  "split_nl [] = [[]]"
| "split_nl (c # cs) =
     (if c = nl then [] # split_nl cs
      else (case split_nl cs of [] \<Rightarrow> [[c]] | l # ls \<Rightarrow> (c # l) # ls))"

text \<open>\<open>"\n".join(lines)\<close>.\<close>

fun join_nl :: "string list \<Rightarrow> string" where
  "join_nl [] = []"
| "join_nl [l] = l"
| "join_nl (l # ls) = l @ nl # join_nl ls"

definition lstrip :: "string \<Rightarrow> string" where
  "lstrip s = dropWhile is_space s"

definition strip :: "string \<Rightarrow> string" where
  "strip s = rev (dropWhile is_space (rev (dropWhile is_space s)))"

text \<open>
  The tail \<open>\s+\w+\<close> of both patterns, matched at the head of \<open>s\<close>: at least one
  whitespace character, and a word character right after the whitespace run.
\<close>

definition spaces_then_word :: "string \<Rightarrow> bool" where
  "spaces_then_word s =
     (case s of [] \<Rightarrow> False
      | c # cs \<Rightarrow> is_space c \<and>
          (case dropWhile is_space cs of [] \<Rightarrow> False | d # _ \<Rightarrow> is_word d))"

definition def_tail :: "string \<Rightarrow> bool" where
  "def_tail s = (take 3 s = ''def'' \<and> spaces_then_word (drop 3 s))"

text \<open>
  \<open>re.compile(r"^(\s*)(async\s+)?def\s+\w+").match(line)\<close>: \<open>None\<close> when there is no
  match, otherwise the length of group 1 (the leading whitespace).
\<close>

definition func_pattern :: "string \<Rightarrow> nat option" where
  "func_pattern line =
     (let rest = dropWhile is_space line in
      if (take 5 rest = ''async'' \<and>
            (case drop 5 rest of [] \<Rightarrow> False
             | c # cs \<Rightarrow> is_space c \<and> def_tail (dropWhile is_space cs)))
         \<or> def_tail rest
      then Some (length (takeWhile is_space line)) else None)"

text \<open>\<open>re.compile(r"^(\s*)class\s+\w+").match(line)\<close>, likewise.\<close>

definition class_pattern :: "string \<Rightarrow> nat option" where
  "class_pattern line =
     (let rest = dropWhile is_space line in
      if take 5 rest = ''class'' \<and> spaces_then_word (drop 5 rest)
      then Some (length (takeWhile is_space line)) else None)"

section \<open>Chunks\<close>

record code_chunk =
  file_path :: string
  content :: string
  start_line :: int
  end_line :: int
  chunk_type :: string

definition CodeChunk :: "string \<Rightarrow> string \<Rightarrow> int \<Rightarrow> int \<Rightarrow> string \<Rightarrow> code_chunk" where
  "CodeChunk fp c s e t =
     \<lparr>file_path = fp, content = c, start_line = s, end_line = e, chunk_type = t\<rparr>"

definition CHUNK_SIZE :: nat where
  "CHUNK_SIZE = 1500"

definition CHUNK_OVERLAP :: nat where
  "CHUNK_OVERLAP = 200"

section \<open>Structural chunking of Python text\<close>

text \<open>
  The inner loop of \<open>extract_python_chunks\<close>, run on the lines after a definition line
  whose indentation is \<open>base_indent\<close>: the lines it appends to the chunk, and the lines
  left for the main loop.
\<close>

fun collect_body :: "nat \<Rightarrow> string list \<Rightarrow> string list \<times> string list" where
  "collect_body base_indent [] = ([], [])"
| "collect_body base_indent (next_line # rest) =
     (if strip next_line = [] then
        (case collect_body base_indent rest of (body, left) \<Rightarrow> (next_line # body, left))
      else
        (let current_indent = length next_line - length (lstrip next_line) in
         if strip next_line \<noteq> [] \<and> current_indent \<le> base_indent
            \<and> (func_pattern next_line \<noteq> None \<or> class_pattern next_line \<noteq> None
                 \<or> current_indent < base_indent)
         then ([], next_line # rest)
         else (case collect_body base_indent rest of (body, left) \<Rightarrow> (next_line # body, left))))"

text \<open>
  The main loop. \<open>i\<close> is the 0-based index of the next line and the list argument
  holds the lines from index \<open>i\<close> on. The state is \<open>chunks\<close>, \<open>current_chunk\<close>,
  \<open>current_start\<close> and \<open>current_type\<close>; \<open>base_indent\<close> is only read by the inner loop
  of the same iteration.
\<close>

function py_loop ::
  "string \<Rightarrow> nat \<Rightarrow> string list \<Rightarrow> code_chunk list \<Rightarrow> string list \<Rightarrow> int \<Rightarrow> string
   \<Rightarrow> code_chunk list \<times> string list \<times> int \<times> string" where
  "py_loop fp i [] chunks current_chunk current_start current_type =
     (chunks, current_chunk, current_start, current_type)"
| "py_loop fp i (line # rest) chunks current_chunk current_start current_type =
     (if func_pattern line \<noteq> None \<or> class_pattern line \<noteq> None then
        (let chunks' =
               (if current_chunk \<noteq> [] then
                  chunks @ [CodeChunk fp (join_nl current_chunk) current_start (int i) current_type]
                else chunks);
             base_indent =
               (case func_pattern line of Some n \<Rightarrow> n
                | None \<Rightarrow> (case class_pattern line of Some n \<Rightarrow> n | None \<Rightarrow> 0))
         in py_loop fp (i + 1 + length (fst (collect_body base_indent rest)))
              (snd (collect_body base_indent rest))
              chunks'
              (line # fst (collect_body base_indent rest))
              (int i + 1)
              (if func_pattern line \<noteq> None then ''function'' else ''class''))
      else py_loop fp (i + 1) rest chunks (current_chunk @ [line]) current_start current_type)"
  by pat_completeness auto
termination
proof (relation "measure (\<lambda>(fp, i, ls, _). length ls)")
  have len: "length (snd (collect_body b xs)) \<le> length xs" for b xs
    by (induction xs) (auto simp: Let_def split: prod.splits)
  fix fp :: string and i :: nat and line :: string and rest :: "string list"
    and chunks :: "code_chunk list" and current_chunk :: "string list"
    and current_start :: int and current_type :: string
    and x :: "code_chunk list" and xa :: nat
  show "((fp, i + 1 + length (fst (collect_body xa rest)), snd (collect_body xa rest), x,
          line # fst (collect_body xa rest), int i + 1,
          if func_pattern line \<noteq> None then ''function'' else ''class''),
         fp, i, line # rest, chunks, current_chunk, current_start, current_type)
        \<in> measure (\<lambda>(fp, i, ls, _). length ls)"
    using len [of xa rest] by simp
qed simp_all

definition extract_python_chunks :: "string \<Rightarrow> string \<Rightarrow> code_chunk list" where
  "extract_python_chunks text fp =
     (let lines = split_nl text in
      case py_loop fp 0 lines [] [] 1 ''block'' of
        (chunks, current_chunk, current_start, current_type) \<Rightarrow>
          if current_chunk \<noteq> [] then
            chunks @ [CodeChunk fp (join_nl current_chunk) current_start
                        (int (length lines)) current_type]
          else chunks)"

section \<open>Fixed-size chunking with overlap\<close>

text \<open>
  The overlap loop over \<open>reversed(current_chunk)\<close>, with \<open>overlap_lines\<close> and
  \<open>overlap_chars\<close> as accumulators.
\<close>

fun overlap_loop :: "nat \<Rightarrow> string list \<Rightarrow> string list \<Rightarrow> nat \<Rightarrow> string list \<times> nat" where
  "overlap_loop ov [] overlap_lines overlap_chars = (overlap_lines, overlap_chars)"
| "overlap_loop ov (line # rest) overlap_lines overlap_chars =
     (if overlap_chars + length line > ov then (overlap_lines, overlap_chars)
      else overlap_loop ov rest (line # overlap_lines) (overlap_chars + length line + 1))"

text \<open>
  The loop over \<open>enumerate(lines, 1)\<close>; \<open>i\<close> is the 1-based number of the line at the
  head. The target size and the overlap budget are parameters; the program runs it
  with \<open>CHUNK_SIZE\<close> and \<open>CHUNK_OVERLAP\<close>.
\<close>

fun size_loop ::
  "nat \<Rightarrow> nat \<Rightarrow> string \<Rightarrow> nat \<Rightarrow> string list \<Rightarrow> code_chunk list \<Rightarrow> string list \<Rightarrow> nat \<Rightarrow> int
   \<Rightarrow> code_chunk list \<times> string list \<times> nat \<times> int" where
  "size_loop sz ov fp i [] chunks current_chunk current_chars current_start =
     (chunks, current_chunk, current_chars, current_start)"
| "size_loop sz ov fp i (line # rest) chunks current_chunk current_chars current_start =
     (let current_chunk' = current_chunk @ [line];
          current_chars' = current_chars + length line + 1
      in if current_chars' \<ge> sz then
           (case overlap_loop ov (rev current_chunk') [] 0 of
              (overlap_lines, overlap_chars) \<Rightarrow>
                size_loop sz ov fp (i + 1) rest
                  (chunks @ [CodeChunk fp (join_nl current_chunk') current_start (int i) ''block''])
                  overlap_lines overlap_chars
                  (int i - int (length overlap_lines) + 1))
         else size_loop sz ov fp (i + 1) rest chunks current_chunk' current_chars' current_start)"

definition chunk_by_size_with :: "nat \<Rightarrow> nat \<Rightarrow> string \<Rightarrow> string \<Rightarrow> code_chunk list" where
  "chunk_by_size_with sz ov text fp =
     (let lines = split_nl text in
      case size_loop sz ov fp 1 lines [] [] 0 1 of
        (chunks, current_chunk, current_chars, current_start) \<Rightarrow>
          if current_chunk \<noteq> [] then
            chunks @ [CodeChunk fp (join_nl current_chunk) current_start
                        (int (length lines)) ''block'']
          else chunks)"

definition chunk_by_size :: "string \<Rightarrow> string \<Rightarrow> code_chunk list" where
  "chunk_by_size text fp = chunk_by_size_with CHUNK_SIZE CHUNK_OVERLAP text fp"

section \<open>Choosing the chunker\<close>

text \<open>\<open>str.lower\<close> on code points 0 to 255.\<close>

definition lower_char :: "char \<Rightarrow> char" where
  "lower_char c = (let n = (of_char c :: nat) in
     if (65 \<le> n \<and> n \<le> 90) \<or> (192 \<le> n \<and> n \<le> 222 \<and> n \<noteq> 215)
     then char_of (n + 32) else c)"

definition lower :: "string \<Rightarrow> string" where
  "lower s = map lower_char s"

text \<open>
  \<open>suffix_of\<close> is the suffix of a plain relative path written with \<open>/\<close>: the
  last component from its last dot on, when that dot is neither its first nor its last
  character. It stands in for \<open>Path(p).suffix\<close> in concrete instances only.
\<close>

definition suffix_of :: "string \<Rightarrow> string" where
  "suffix_of p =
     (let name = rev (takeWhile (\<lambda>c. c \<noteq> CHR ''/'') (rev p));
          ext = rev (takeWhile (\<lambda>c. c \<noteq> CHR ''.'') (rev name))
      in if length ext < length name \<and> ext \<noteq> [] \<and> length ext + 1 < length name
         then CHR ''.'' # ext else [])"

text \<open>
  In \<open>chunk_code\<close>, \<open>path_suffix\<close> stands for \<open>Path(file_path).suffix\<close> of the standard library, which the
  program only calls.
\<close>

definition chunk_code :: "(string \<Rightarrow> string) \<Rightarrow> string \<Rightarrow> string \<Rightarrow> code_chunk list" where
  "chunk_code path_suffix text fp =
     (let ext = lower (path_suffix fp) in
      if ext = ''.py'' then
        (let chunks = extract_python_chunks text fp in
         if length chunks = 1 \<and> length (content (hd chunks)) > CHUNK_SIZE * 2
         then chunk_by_size text fp
         else chunks)
      else chunk_by_size text fp)"

section \<open>The vector store and the retriever\<close>

text \<open>
  Scores and vector components are Python floats; they are modelled as real numbers, so
  rounding, infinities and NaN are outside the model. An array is its list of rows;
  \<open>nd_cols\<close> is \<open>shape[1]\<close>, \<open>None\<close> for an array with no second axis (where
  \<open>shape[1]\<close> raises \<open>IndexError\<close>).
\<close>

type_synonym vec = "real list"

record ndarray =
  nd_rows :: "vec list"
  nd_cols :: "nat option"

text \<open>
  The fields \<open>model\<close>, \<open>index\<close>, \<open>chunks\<close> and \<open>embeddings\<close> of \<open>VectorStore\<close>.
  \<open>store_model_loaded\<close> is \<open>self.model is not None\<close>; the FAISS index is modelled by
  the rows added to it.
\<close>

record vector_store =
  store_model_loaded :: bool
  store_index :: "vec list option"
  store_chunks :: "code_chunk list"
  store_embeddings :: "ndarray option"

text \<open>\<open>VectorStore.__init__\<close>, without the directory it creates.\<close>

definition new_store :: vector_store where
  "new_store = \<lparr>store_model_loaded = False, store_index = None, store_chunks = [],
                 store_embeddings = None\<rparr>"

text \<open>\<open>xs[k:]\<close>: a negative \<open>k\<close> counts from the end, clamped at the start.\<close>

definition py_slice_from :: "'a list \<Rightarrow> int \<Rightarrow> 'a list" where
  "py_slice_from xs k =
     (if k < 0 then drop (nat (int (length xs) + k)) xs else drop (nat k) xs)"

text \<open>The body of the loop of \<open>get_file_context\<close>: the new value of \<open>combined\<close>.\<close>

definition combine_step :: "code_chunk \<Rightarrow> string list \<Rightarrow> int \<Rightarrow> string list" where
  "combine_step chunk combined last_end =
     (if start_line chunk > last_end then combined @ [content chunk]
      else if end_line chunk > last_end then
        (let lines = split_nl (content chunk);
             new_start = last_end - start_line chunk + 1
         in if new_start < int (length lines)
            then combined @ [join_nl (py_slice_from lines new_start)]
            else combined)
      else combined)"

text \<open>The loop over the sorted chunks, with \<open>combined\<close> and \<open>last_end\<close>.\<close>

fun combine_loop :: "code_chunk list \<Rightarrow> string list \<Rightarrow> int \<Rightarrow> string list" where
  "combine_loop [] combined last_end = combined"
| "combine_loop (chunk # rest) combined last_end =
     combine_loop rest (combine_step chunk combined last_end) (max last_end (end_line chunk))"

text \<open>\<open>list.sort(key=...)\<close> is stable, as \<open>sort_key\<close> is.\<close>

definition get_file_context :: "vector_store \<Rightarrow> string \<Rightarrow> string option" where
  "get_file_context store fp =
     (let matching_chunks = filter (\<lambda>chunk. file_path chunk = fp) (store_chunks store) in
      if matching_chunks = [] then None
      else Some (join_nl (combine_loop (sort_key start_line matching_chunks) [] 0)))"

section \<open>Errors and the environment\<close>

datatype error = ValueError | ImportError | IndexError | KeyError | TypeError

text \<open>
  What the program gets from outside its own code: whether \<open>sentence_transformers\<close> and
  \<open>faiss\<close> can be imported, the embedding model (\<open>model.encode\<close> on a list of texts, and
  on the one-element list of a query, where it gives the query's vector), the search of
  a FAISS index (scores and indices of the first query), the number \<open>np.dot\<close> computes
  for a stored row and the query in its floating-point arithmetic, \<open>np.argsort\<close>, and
  Python's \<open>hash\<close> on strings.
\<close>

record env =
  have_sentence_transformers :: bool
  have_faiss :: bool
  model_encode :: "string list \<Rightarrow> ndarray"
  encode_query :: "string \<Rightarrow> vec"
  faiss_search :: "vec list \<Rightarrow> vec \<Rightarrow> int \<Rightarrow> real list \<times> int list"
  np_dot :: "vec \<Rightarrow> vec \<Rightarrow> real"
  np_argsort :: "real list \<Rightarrow> nat list"
  py_hash :: "string \<Rightarrow> int"

text \<open>\<open>xs[i]\<close> for a Python integer \<open>i\<close>.\<close>

definition py_index :: "'a list \<Rightarrow> int \<Rightarrow> error + 'a" where
  "py_index xs i =
     (if 0 \<le> i \<and> i < int (length xs) then Inr (xs ! nat i)
      else if i < 0 \<and> - int (length xs) \<le> i then Inr (xs ! nat (int (length xs) + i))
      else Inl IndexError)"

text \<open>A list comprehension whose element expression may raise: the first error wins.\<close>

fun collect_results :: "('a \<Rightarrow> error + 'b) \<Rightarrow> 'a list \<Rightarrow> error + 'b list" where
  "collect_results f [] = Inr []"
| "collect_results f (x # xs) =
     (case f x of Inl e \<Rightarrow> Inl e
      | Inr y \<Rightarrow> (case collect_results f xs of Inl e \<Rightarrow> Inl e | Inr ys \<Rightarrow> Inr (y # ys)))"

section \<open>Building and searching the index\<close>

definition load_model :: "env \<Rightarrow> vector_store \<Rightarrow> error + vector_store" where
  "load_model e store =
     (if store_model_loaded store then Inr store
      else if have_sentence_transformers e then Inr (store\<lparr>store_model_loaded := True\<rparr>)
      else Inl ImportError)"

definition init_faiss_index :: "env \<Rightarrow> nat \<Rightarrow> vector_store \<Rightarrow> vector_store" where
  "init_faiss_index e dimension store =
     (if have_faiss e then store\<lparr>store_index := Some []\<rparr> else store\<lparr>store_index := None\<rparr>)"

definition embed_chunks ::
  "env \<Rightarrow> vector_store \<Rightarrow> code_chunk list \<Rightarrow> (error + ndarray) \<times> vector_store" where
  "embed_chunks e store chunks =
     (case load_model e store of
        Inl err \<Rightarrow> (Inl err, store)
      | Inr store1 \<Rightarrow>
          (let store2 = store1\<lparr>store_chunks := chunks\<rparr>;
               texts = map (\<lambda>chunk. ''File: '' @ file_path chunk @ nl # content chunk) chunks;
               embeddings = model_encode e texts;
               store3 = store2\<lparr>store_embeddings := Some embeddings\<rparr>
           in case nd_cols embeddings of
                None \<Rightarrow> (Inl IndexError, store3)
              | Some dimension \<Rightarrow>
                  (let store4 = init_faiss_index e dimension store3;
                       store5 = (case store_index store4 of
                                   Some rows \<Rightarrow> store4\<lparr>store_index := Some (rows @ nd_rows embeddings)\<rparr>
                                 | None \<Rightarrow> store4)
                   in (Inr embeddings, store5))))"

text \<open>The inner product of two vectors in exact arithmetic.\<close>

definition dot :: "vec \<Rightarrow> vec \<Rightarrow> real" where
  "dot u v = sum_list (map (\<lambda>(a, b). a * b) (zip u v))"

text \<open>
  \<open>np.dot(self.embeddings, query_embedding.T).flatten()\<close>: one inner product per stored
  row, as NumPy computes it; NumPy raises \<open>ValueError\<close> when a row and the query differ
  in length.
\<close>

definition similarities :: "env \<Rightarrow> ndarray \<Rightarrow> vec \<Rightarrow> error + real list" where
  "similarities e embeddings q =
     (if list_all (\<lambda>row. length row = length q) (nd_rows embeddings)
      then Inr (map (\<lambda>row. np_dot e row q) (nd_rows embeddings))
      else Inl ValueError)"

definition search ::
  "env \<Rightarrow> vector_store \<Rightarrow> string \<Rightarrow> int \<Rightarrow> (error + (code_chunk \<times> real) list) \<times> vector_store" where
  "search e store query top_k =
     (if store_embeddings store = None \<or> length (store_chunks store) = 0
      then (Inl ValueError, store)
      else case load_model e store of
        Inl err \<Rightarrow> (Inl err, store)
      | Inr store1 \<Rightarrow>
          (let query_embedding = encode_query e query in
           case store_index store1 of
             Some idx \<Rightarrow>
               (case faiss_search e idx query_embedding
                       (min top_k (int (length (store_chunks store1)))) of
                  (scores, indices) \<Rightarrow>
                    (collect_results
                       (\<lambda>(i, score). case py_index (store_chunks store1) i of
                            Inl err \<Rightarrow> Inl err | Inr chunk \<Rightarrow> Inr (chunk, score))
                       (zip indices scores), store1))
           | None \<Rightarrow>
               (case similarities e (the (store_embeddings store1)) query_embedding of
                  Inl err \<Rightarrow> (Inl err, store1)
                | Inr sims \<Rightarrow>
                    (let top_indices = rev (py_slice_from (np_argsort e sims) (- top_k)) in
                     (collect_results
                        (\<lambda>i. case py_index (store_chunks store1) (int i) of
                             Inl err \<Rightarrow> Inl err
                           | Inr chunk \<Rightarrow>
                               (case py_index sims (int i) of
                                  Inl err \<Rightarrow> Inl err | Inr s \<Rightarrow> Inr (chunk, s)))
                        top_indices, store1)))))"


section \<open>Retrieval\<close>

definition estimate_tokens :: "string \<Rightarrow> int" where
  "estimate_tokens text = int (length text) div 4"

text \<open>The filtering loop of \<open>retrieve\<close>, with \<open>seen_content\<close>, \<open>filtered_results\<close> and
  \<open>total_tokens\<close>.\<close>

fun retrieve_loop ::
  "(string \<Rightarrow> int) \<Rightarrow> int \<Rightarrow> int \<Rightarrow> (code_chunk \<times> real) list \<Rightarrow> int set
   \<Rightarrow> (code_chunk \<times> real) list \<Rightarrow> int \<Rightarrow> (code_chunk \<times> real) list" where
  "retrieve_loop h top_k max_tokens [] seen_content filtered_results total_tokens =
     filtered_results"
| "retrieve_loop h top_k max_tokens ((chunk, score) # rest) seen_content filtered_results
       total_tokens =
     (let content_hash = h (take 500 (content chunk)) in
      if content_hash \<in> seen_content
      then retrieve_loop h top_k max_tokens rest seen_content filtered_results total_tokens
      else
        (let seen_content' = insert content_hash seen_content;
             chunk_tokens = estimate_tokens (content chunk)
         in if total_tokens + chunk_tokens > max_tokens
            then retrieve_loop h top_k max_tokens rest seen_content' filtered_results
                   total_tokens
            else
              (let filtered_results' = filtered_results @ [(chunk, score)];
                   total_tokens' = total_tokens + chunk_tokens
               in if int (length filtered_results') \<ge> top_k then filtered_results'
                  else retrieve_loop h top_k max_tokens rest seen_content' filtered_results'
                         total_tokens')))"

definition retrieve ::
  "env \<Rightarrow> vector_store \<Rightarrow> string \<Rightarrow> int \<Rightarrow> int
   \<Rightarrow> (error + (code_chunk \<times> real) list) \<times> vector_store" where
  "retrieve e store query top_k max_tokens =
     (case search e store query (top_k * 2) of
        (Inl err, store') \<Rightarrow> (Inl err, store')
      | (Inr results, store') \<Rightarrow>
          (Inr (retrieve_loop (py_hash e) top_k max_tokens results {} [] 0), store'))"

section \<open>Saving and loading the store\<close>

text \<open>
  The values \<open>json.dump\<close> writes and \<open>json.load\<close> reads back; the text between the two
  is the standard library's. A directory of the store holds up to three files.
\<close>

datatype json = JString string | JInt int | JArray "json list" | JObject "(string \<times> json) list"

record store_files =
  embeddings_npy :: "ndarray option"
  chunks_json :: "json option"
  index_faiss :: "vec list option"

type_synonym store_dirs = "string \<Rightarrow> store_files option"

definition chunk_to_json :: "code_chunk \<Rightarrow> json" where
  "chunk_to_json c =
     JObject [(''file_path'', JString (file_path c)), (''content'', JString (content c)),
              (''start_line'', JInt (start_line c)), (''end_line'', JInt (end_line c)),
              (''chunk_type'', JString (chunk_type c))]"

definition json_string :: "(string \<times> json) list \<Rightarrow> string \<Rightarrow> error + string" where
  "json_string kvs k =
     (case map_of kvs k of None \<Rightarrow> Inl KeyError
      | Some (JString s) \<Rightarrow> Inr s | Some _ \<Rightarrow> Inl TypeError)"

definition json_int :: "(string \<times> json) list \<Rightarrow> string \<Rightarrow> error + int" where
  "json_int kvs k =
     (case map_of kvs k of None \<Rightarrow> Inl KeyError
      | Some (JInt n) \<Rightarrow> Inr n | Some _ \<Rightarrow> Inl TypeError)"

text \<open>
  One \<open>CodeChunk(file_path=c["file_path"], ...)\<close> of \<open>load\<close>. A missing key raises
  \<open>KeyError\<close>; a value of another JSON type, which Python would store as it is, has no
  place in the typed record and is an error here.
\<close>

definition chunk_of_json :: "json \<Rightarrow> error + code_chunk" where
  "chunk_of_json j =
     (case j of
        JObject kvs \<Rightarrow>
          (case json_string kvs ''file_path'' of Inl err \<Rightarrow> Inl err | Inr fp \<Rightarrow>
           case json_string kvs ''content'' of Inl err \<Rightarrow> Inl err | Inr c \<Rightarrow>
           case json_int kvs ''start_line'' of Inl err \<Rightarrow> Inl err | Inr s \<Rightarrow>
           case json_int kvs ''end_line'' of Inl err \<Rightarrow> Inl err | Inr e \<Rightarrow>
           case json_string kvs ''chunk_type'' of Inl err \<Rightarrow> Inl err | Inr t \<Rightarrow>
             Inr (CodeChunk fp c s e t))
      | _ \<Rightarrow> Inl TypeError)"

definition chunks_of_json :: "json \<Rightarrow> error + code_chunk list" where
  "chunks_of_json j =
     (case j of JArray js \<Rightarrow> collect_results chunk_of_json js | _ \<Rightarrow> Inl TypeError)"

definition empty_dir :: store_files where
  "empty_dir = \<lparr>embeddings_npy = None, chunks_json = None, index_faiss = None\<rparr>"

definition save :: "vector_store \<Rightarrow> string \<Rightarrow> store_dirs \<Rightarrow> store_dirs" where
  "save store name dirs =
     (let d0 = (case dirs name of None \<Rightarrow> empty_dir | Some d \<Rightarrow> d);
          d1 = (case store_embeddings store of
                  Some a \<Rightarrow> d0\<lparr>embeddings_npy := Some a\<rparr> | None \<Rightarrow> d0);
          d2 = d1\<lparr>chunks_json := Some (JArray (map chunk_to_json (store_chunks store)))\<rparr>;
          d3 = (case store_index store of
                  Some idx \<Rightarrow> d2\<lparr>index_faiss := Some idx\<rparr> | None \<Rightarrow> d2)
      in dirs(name \<mapsto> d3))"

definition load ::
  "env \<Rightarrow> vector_store \<Rightarrow> string \<Rightarrow> store_dirs \<Rightarrow> (error + bool) \<times> vector_store" where
  "load e store name dirs =
     (case dirs name of
        None \<Rightarrow> (Inr False, store)
      | Some d \<Rightarrow>
          (let store1 = (case embeddings_npy d of
                           Some a \<Rightarrow> store\<lparr>store_embeddings := Some a\<rparr> | None \<Rightarrow> store)
           in case (case chunks_json d of
                      None \<Rightarrow> Inr store1
                    | Some j \<Rightarrow> (case chunks_of_json j of
                                  Inl err \<Rightarrow> Inl err
                                | Inr cs \<Rightarrow> Inr (store1\<lparr>store_chunks := cs\<rparr>))) of
                Inl err \<Rightarrow> (Inl err, store1)
              | Inr store2 \<Rightarrow>
                  (case index_faiss d of
                     None \<Rightarrow> (Inr True, store2)
                   | Some idx \<Rightarrow>
                       if have_faiss e then (Inr True, store2\<lparr>store_index := Some idx\<rparr>)
                       else (case store_embeddings store2 of
                               None \<Rightarrow> (Inr True, init_faiss_index e 384 store2)
                             | Some a \<Rightarrow>
                                 (case nd_cols a of
                                    None \<Rightarrow> (Inl IndexError, store2)
                                  | Some n \<Rightarrow> (Inr True, init_faiss_index e n store2))))))"

section \<open>Line ranges\<close>

text \<open>\<open>tiled s cs n\<close>: the line ranges of \<open>cs\<close>, in order, are non-empty, start at
  \<open>s\<close>, each begins right after the one before it, and the last ends at \<open>n\<close>.\<close>

fun tiled :: "int \<Rightarrow> code_chunk list \<Rightarrow> int \<Rightarrow> bool" where
  "tiled s [] n = (s = n + 1)"
| "tiled s (c # cs) n = (start_line c = s \<and> s \<le> end_line c \<and> tiled (end_line c + 1) cs n)"

text \<open>\<open>is_slice ls c\<close>: the content of \<open>c\<close> is the lines of \<open>ls\<close> numbered
  \<open>start_line c\<close> to \<open>end_line c\<close>, joined.\<close>

definition is_slice :: "string list \<Rightarrow> code_chunk \<Rightarrow> bool" where
  "is_slice ls c =
     (1 \<le> start_line c \<and> start_line c \<le> end_line c \<and> end_line c \<le> int (length ls) \<and>
      content c = join_nl (take (nat (end_line c - start_line c + 1))
                             (drop (nat (start_line c - 1)) ls)))"

text \<open>
  What holds of the state of the main loop of \<open>extract_python_chunks\<close> on the lines
  \<open>L\<close>: the chunks emitted so far tile the lines before \<open>current_start\<close>, each is
  the slice of \<open>L\<close> it names, and \<open>current_chunk\<close> is the rest of \<open>L\<close>.
\<close>

definition py_post :: "string list \<Rightarrow> string \<Rightarrow> code_chunk list \<times> string list \<times> int \<times> string \<Rightarrow> bool" where
  "py_post L fp r = (case r of (chunks', cur', start', ty') \<Rightarrow>
        tiled 1 chunks' (start' - 1) \<and> (\<forall>c\<in>set chunks'. is_slice L c \<and> file_path c = fp)
        \<and> cur' = drop (nat (start' - 1)) L \<and> 1 \<le> start' \<and> start' \<le> int (length L) + 1
        \<and> (0 < length L \<longrightarrow> start' \<le> int (length L)))"

text \<open>\<open>reach le cs\<close>: the value of \<open>last_end\<close> after the chunks \<open>cs\<close>, starting from
  \<open>le\<close>. \<open>linked L le cs\<close>: every chunk of \<open>cs\<close> is a slice of \<open>L\<close> and starts no
  later than the line after the lines covered before it.\<close>

fun reach :: "int \<Rightarrow> code_chunk list \<Rightarrow> int" where
  "reach le [] = le"
| "reach le (c # cs) = reach (max le (end_line c)) cs"

fun linked :: "string list \<Rightarrow> int \<Rightarrow> code_chunk list \<Rightarrow> bool" where
  "linked L le [] = True"
| "linked L le (c # cs) =
     (is_slice L c \<and> start_line c \<le> le + 1 \<and> linked L (max le (end_line c)) cs)"

text \<open>
  What holds of \<open>combined\<close> and \<open>last_end\<close> in \<open>get_file_context\<close>: nothing has been
  taken yet, or \<open>combined\<close> joins to the first \<open>last_end\<close> lines of \<open>L\<close>.
\<close>

definition combined_upto :: "string list \<Rightarrow> string list \<Rightarrow> int \<Rightarrow> bool" where
  "combined_upto L combined le =
     ((le = 0 \<and> combined = []) \<or>
      (0 < le \<and> le \<le> int (length L) \<and> combined \<noteq> []
         \<and> join_nl combined = join_nl (take (nat le) L)))"

text \<open>
  \<open>overlap_window ov ls\<close>: the lines the overlap loop keeps from a chunk with lines
  \<open>ls\<close>. \<open>overlapping ov cs\<close>: each chunk of \<open>cs\<close> after the first begins with the
  overlap window of the chunk before it, and starts that many lines before its end.
\<close>

definition overlap_window :: "nat \<Rightarrow> string list \<Rightarrow> string list" where
  "overlap_window ov ls = fst (overlap_loop ov (rev ls) [] 0)"

definition overlaps_with :: "nat \<Rightarrow> code_chunk \<Rightarrow> code_chunk \<Rightarrow> bool" where
  "overlaps_with ov c d =
     (prefix (overlap_window ov (split_nl (content c))) (split_nl (content d)) \<and>
      start_line d = end_line c - int (length (overlap_window ov (split_nl (content c)))) + 1)"

fun overlapping :: "nat \<Rightarrow> code_chunk list \<Rightarrow> bool" where
  "overlapping ov [] = True"
| "overlapping ov [c] = True"
| "overlapping ov (c # d # cs) = (overlaps_with ov c d \<and> overlapping ov (d # cs))"

definition line_chars :: "string list \<Rightarrow> nat" where
  "line_chars ls = sum_list (map (\<lambda>l. length l + 1) ls)"

text \<open>
  What holds of the state of the loop of \<open>chunk_by_size\<close> after the lines \<open>pre\<close> of
  \<open>L\<close>.
\<close>

definition size_inv ::
  "nat \<Rightarrow> nat \<Rightarrow> string list \<Rightarrow> string \<Rightarrow> string list
   \<Rightarrow> code_chunk list \<times> string list \<times> nat \<times> int \<Rightarrow> bool" where
  "size_inv sz ov L fp pre st = (case st of (chunks, cur, chars, start) \<Rightarrow>
     linked L 0 chunks \<and> sorted (map start_line chunks) \<and> overlapping ov chunks
     \<and> list_all (\<lambda>c. file_path c = fp \<and> start_line c \<le> start
                       \<and> sz \<le> length (content c) + 1 \<and> chunk_type c = ''block'') chunks
     \<and> reach 0 chunks \<le> int (length pre) \<and> start \<le> reach 0 chunks + 1
     \<and> 1 \<le> start \<and> nat (start - 1) \<le> length pre \<and> cur = drop (nat (start - 1)) pre
     \<and> chars = line_chars cur
     \<and> (chunks = [] \<or>
          (prefix (overlap_window ov (split_nl (content (last chunks)))) cur \<and>
           start = end_line (last chunks)
                     - int (length (overlap_window ov (split_nl (content (last chunks))))) + 1)))"

text \<open>
  \<open>shares_window ov c d\<close>: the overlap window of \<open>c\<close> is a run of trailing lines of
  \<open>c\<close> and of leading lines of \<open>d\<close>, and it is empty exactly when the last line of
  \<open>c\<close> is longer than \<open>ov\<close> characters.
\<close>

definition shares_window :: "nat \<Rightarrow> code_chunk \<Rightarrow> code_chunk \<Rightarrow> bool" where
  "shares_window ov c d =
     (suffix (overlap_window ov (split_nl (content c))) (split_nl (content c)) \<and>
      prefix (overlap_window ov (split_nl (content c))) (split_nl (content d)) \<and>
      (overlap_window ov (split_nl (content c)) = []
         \<longleftrightarrow> ov < length (last (split_nl (content c)))))"

text \<open>
  \<open>body_line base l\<close>: the inner loop of the structural chunker, at a definition of
  indentation \<open>base\<close>, appends the line \<open>l\<close>: it is blank, or indented deeper, or at
  the same indentation and not itself a definition line.
\<close>

definition body_line :: "nat \<Rightarrow> string \<Rightarrow> bool" where
  "body_line base l =
     (strip l = [] \<or> base < length l - length (lstrip l) \<or>
      (length l - length (lstrip l) = base \<and> func_pattern l = None \<and> class_pattern l = None))"

text \<open>
  A file of 50 lines with one top-level function at lines 5 to 20 and one top-level class
  at lines 25 to 45, and plain statements elsewhere.
\<close>

definition scenario_lines :: "string list" where
  "scenario_lines =
     replicate 4 ''a = 1'' @ [''def f():''] @ replicate 15 ''    x = 1''
     @ replicate 4 ''b = 2'' @ [''class C:''] @ replicate 20 ''    y = 2''
     @ replicate 5 ''c = 3''"

text \<open>
  The estimated tokens of a result list, and the fingerprints \<open>hash(chunk.content[:500])\<close>
  of its chunks.
\<close>

definition token_sum :: "(code_chunk \<times> real) list \<Rightarrow> int" where
  "token_sum rs = sum_list (map (\<lambda>(c, s). estimate_tokens (content c)) rs)"

definition fingerprints :: "(string \<Rightarrow> int) \<Rightarrow> (code_chunk \<times> real) list \<Rightarrow> int list" where
  "fingerprints h rs = map (\<lambda>(c, s). h (take 500 (content c))) rs"

text \<open>
  A small environment and store for concrete instances: no FAISS, an embedding of a text
  by its length, exact inner products, a stable \<open>argsort\<close>, and the length of a string
  as its hash.
\<close>

definition demo_env :: env where
  "demo_env =
     \<lparr>have_sentence_transformers = True, have_faiss = False,
      model_encode = (\<lambda>texts. \<lparr>nd_rows = map (\<lambda>t. [real (length t), 1]) texts,
                               nd_cols = Some 2\<rparr>),
      encode_query = (\<lambda>q. [1, 0]),
      faiss_search = (\<lambda>idx q k. ([], [])),
      np_dot = dot,
      np_argsort = (\<lambda>xs. sort_key (\<lambda>i. xs ! i) [0..<length xs]),
      py_hash = (\<lambda>s. int (length s))\<rparr>"

definition demo_chunks :: "code_chunk list" where
  "demo_chunks =
     [CodeChunk ''a.py'' ''def f(): pass'' 1 1 ''function'',
      CodeChunk ''a.py'' ''x = 1'' 2 2 ''block'',
      CodeChunk ''b.py'' ''def f(): pass'' 1 1 ''function'']"

definition demo_store :: vector_store where
  "demo_store = snd (embed_chunks demo_env new_store demo_chunks)"



text \<open>
  A line on which neither pattern matches; the indentation the main loop reads off a
  definition line (the length of group 1), and the chunk type it sets for it.
\<close>

definition plain_line :: "string \<Rightarrow> bool" where
  "plain_line l = (func_pattern l = None \<and> class_pattern l = None)"

definition def_indent :: "string \<Rightarrow> nat" where
  "def_indent d =
     (case func_pattern d of Some n \<Rightarrow> n
      | None \<Rightarrow> (case class_pattern d of Some n \<Rightarrow> n | None \<Rightarrow> 0))"

definition def_type :: "string \<Rightarrow> string" where
  "def_type d = (if func_pattern d \<noteq> None then ''function'' else ''class'')"

text \<open>
  \<open>definition_chunk L c\<close>: the chunk \<open>c\<close> of the file with lines \<open>L\<close> starts at a
  definition line \<open>d\<close>, has the type of that line, and its lines are \<open>d\<close>, then the
  longest run of following lines that are body lines for the indentation of \<open>d\<close>, then
  the lines from there up to the next definition line. \<open>first_chunk L c\<close>: the chunk
  starts at line 1 and is such a chunk, or, when the file does not begin with a
  definition line, the block of the lines before the first definition line.
\<close>

definition definition_chunk :: "string list \<Rightarrow> code_chunk \<Rightarrow> bool" where
  "definition_chunk L c =
     (1 \<le> start_line c \<and> nat (start_line c) \<le> length L \<and>
      (let d = L ! nat (start_line c - 1); after = drop (nat (start_line c)) L in
       \<not> plain_line d \<and> chunk_type c = def_type d \<and>
       split_nl (content c) =
         d # takeWhile (body_line (def_indent d)) after
           @ takeWhile plain_line (dropWhile (body_line (def_indent d)) after)))"

definition first_chunk :: "string list \<Rightarrow> code_chunk \<Rightarrow> bool" where
  "first_chunk L c =
     (start_line c = 1 \<and>
      (if plain_line (hd L)
       then chunk_type c = ''block'' \<and> split_nl (content c) = takeWhile plain_line L
       else definition_chunk L c))"

definition chunks_ok :: "string list \<Rightarrow> code_chunk list \<Rightarrow> bool" where
  "chunks_ok L cs =
     (case cs of [] \<Rightarrow> True | c # rest \<Rightarrow> first_chunk L c \<and> list_all (definition_chunk L) rest)"

text \<open>
  What holds of the state of the main loop of \<open>extract_python_chunks\<close> after the lines
  \<open>pre\<close> of \<open>L\<close>, with \<open>rest\<close> to come: the open chunk is the leading block, or it
  began at a definition line and holds the body of that definition followed by plain
  lines.
\<close>

definition py_open ::
  "string list \<Rightarrow> string list \<Rightarrow> string list \<Rightarrow> code_chunk list \<Rightarrow> string list \<Rightarrow> int \<Rightarrow> string
   \<Rightarrow> bool" where
  "py_open L pre rest chunks cur start ty =
     (L = pre @ rest \<and> chunks_ok L chunks \<and>
      ((ty = ''block'' \<and> chunks = [] \<and> cur = pre \<and> list_all plain_line pre \<and> start = 1)
       \<or> (\<exists>A d u t. pre = A @ d # u \<and> cur = d # u \<and> start = int (length A) + 1
             \<and> \<not> plain_line d \<and> ty = def_type d
             \<and> u = takeWhile (body_line (def_indent d)) (u @ rest) @ t
             \<and> list_all plain_line t \<and> (chunks = [] \<longrightarrow> A = []))))"

section \<open>Properties\<close>

subsection \<open>Splitting and joining lines\<close>

lemma split_nl_nonempty: "split_nl s \<noteq> []"
  by (induction s) (auto split: list.splits)

lemma join_nl_Cons: "xs \<noteq> [] \<Longrightarrow> join_nl (x # xs) = x @ nl # join_nl xs"
  by (cases xs) simp_all

lemma join_split: "join_nl (split_nl s) = s"
proof (induction s)
  case Nil then show ?case by simp
next
  case (Cons c cs)
  obtain l ls where sp: "split_nl cs = l # ls"
    using split_nl_nonempty[of cs] by (cases "split_nl cs") auto
  show ?case
  proof (cases "c = nl")
    case True
    then show ?thesis using Cons.IH sp by (simp add: join_nl_Cons)
  next
    case False
    then show ?thesis using Cons.IH sp by (cases ls) simp_all
  qed
qed

lemma split_nl_line: "nl \<notin> set l \<Longrightarrow> split_nl l = [l]"
  by (induction l) auto

lemma split_nl_append: "nl \<notin> set l \<Longrightarrow> split_nl (l @ nl # s) = l # split_nl s"
  by (induction l) auto

lemma split_join: "xs \<noteq> [] \<Longrightarrow> \<forall>l\<in>set xs. nl \<notin> set l \<Longrightarrow> split_nl (join_nl xs) = xs"
proof (induction xs)
  case Nil then show ?case by simp
next
  case (Cons x xs)
  show ?case
  proof (cases "xs = []")
    case True then show ?thesis using Cons.prems by (simp add: split_nl_line)
  next
    case False
    then show ?thesis using Cons by (simp add: join_nl_Cons split_nl_append)
  qed
qed

lemma split_nl_no_nl: "l \<in> set (split_nl s) \<Longrightarrow> nl \<notin> set l"
proof (induction s arbitrary: l)
  case Nil then show ?case by simp
next
  case (Cons c cs)
  obtain a as where sp: "split_nl cs = a # as"
    using split_nl_nonempty[of cs] by (cases "split_nl cs") auto
  have a: "nl \<notin> set a" and as: "\<And>x. x \<in> set as \<Longrightarrow> nl \<notin> set x"
    using Cons.IH sp by simp_all
  show ?case using Cons.prems sp a as by (auto split: if_splits)
qed

lemma join_nl_append:
  "xs \<noteq> [] \<Longrightarrow> ys \<noteq> [] \<Longrightarrow> join_nl (xs @ ys) = join_nl xs @ nl # join_nl ys"
proof (induction xs)
  case Nil then show ?case by simp
next
  case (Cons x xs)
  show ?case
  proof (cases "xs = []")
    case True then show ?thesis using Cons.prems by (simp add: join_nl_Cons)
  next
    case False
    then show ?thesis using Cons by (simp add: join_nl_Cons)
  qed
qed

lemma join_nl_snoc_piece:
  "ps \<noteq> [] \<Longrightarrow> join_nl (ps @ [p]) = join_nl ps @ nl # p"
  using join_nl_append[of ps "[p]"] by simp

subsection \<open>Line ranges\<close>

lemma tiled_snoc:
  "tiled s cs e \<Longrightarrow> start_line c = e + 1 \<Longrightarrow> start_line c \<le> end_line c
   \<Longrightarrow> tiled s (cs @ [c]) (end_line c)"
  by (induction cs arbitrary: s) simp_all

lemma tiled_le: "tiled s cs n \<Longrightarrow> s \<le> n + 1"
proof (induction cs arbitrary: s)
  case Nil then show ?case by simp
next
  case (Cons c cs)
  from Cons.prems have t: "tiled (end_line c + 1) cs n" and s: "s \<le> end_line c" by simp_all
  from Cons.IH[OF t] s show ?case by linarith
qed

lemma tiled_ranges:
  "tiled s cs n \<Longrightarrow> concat (map (\<lambda>c. [start_line c .. end_line c]) cs) = [s .. n]"
proof (induction cs arbitrary: s)
  case Nil then show ?case by simp
next
  case (Cons c cs)
  then have e: "s \<le> end_line c" "start_line c = s" and t: "tiled (end_line c + 1) cs n"
    by simp_all
  from tiled_le[OF t] have le: "end_line c \<le> n" by simp
  have "[s..n] = [s..end_line c] @ [end_line c + 1..n]"
    using e(1) le by (rule upto_split2)
  then show ?case using Cons.IH[OF t] e by simp
qed

lemma slice_prefix:
  assumes "1 \<le> s" "s \<le> int (length pre) + 1"
  shows "take (nat (int (length pre) - s + 1)) (drop (nat (s - 1)) (pre @ rest))
         = drop (nat (s - 1)) pre"
proof -
  have "nat (s - 1) \<le> length pre" using assms by linarith
  moreover have "nat (int (length pre) - s + 1) = length pre - nat (s - 1)"
    using assms by linarith
  ultimately show ?thesis by simp
qed

subsection \<open>Slices and links\<close>

lemma is_slice_elim:
  assumes "is_slice L c"
  obtains s0 e where "start_line c = int s0 + 1" "end_line c = int e" "s0 < e" "e \<le> length L"
    "content c = join_nl (drop s0 (take e L))"
proof -
  define s0 where "s0 = nat (start_line c - 1)"
  define e where "e = nat (end_line c)"
  have a: "1 \<le> start_line c" "start_line c \<le> end_line c" "end_line c \<le> int (length L)"
    and ct: "content c = join_nl (take (nat (end_line c - start_line c + 1)) (drop (nat (start_line c - 1)) L))"
    using assms unfolding is_slice_def by simp_all
  have 1: "start_line c = int s0 + 1" using a by (simp add: s0_def)
  have 2: "end_line c = int e" using a by (simp add: e_def)
  have 3: "s0 < e" using a unfolding s0_def e_def by linarith
  have 4: "e \<le> length L" using a unfolding e_def by linarith
  have "nat (end_line c - start_line c + 1) = e - s0" using a unfolding s0_def e_def by linarith
  then have 5: "content c = join_nl (drop s0 (take e L))"
    using ct by (simp add: s0_def[symmetric] drop_take)
  show thesis using that[OF 1 2 3 4 5] .
qed

lemma is_slice_intro:
  assumes "s0 < e" "e \<le> length L"
  shows "is_slice L (CodeChunk fp (join_nl (drop s0 (take e L))) (int s0 + 1) (int e) ty)"
proof -
  have "nat (int e - (int s0 + 1) + 1) = e - s0" using assms by linarith
  then show ?thesis using assms unfolding is_slice_def by (simp add: CodeChunk_def drop_take)
qed

lemma reach_snoc: "reach le (cs @ [c]) = max (reach le cs) (end_line c)"
  by (induction cs arbitrary: le) simp_all

lemma linked_snoc:
  "linked L le (cs @ [c]) = (linked L le cs \<and> is_slice L c \<and> start_line c \<le> reach le cs + 1)"
  by (induction cs arbitrary: le) auto

lemma reach_ge: "le \<le> reach le cs"
proof (induction cs arbitrary: le)
  case Nil then show ?case by simp
next
  case (Cons c cs)
  have "max le (end_line c) \<le> reach (max le (end_line c)) cs" by (rule Cons.IH)
  then show ?case by simp
qed

subsection \<open>The structural chunker\<close>

lemma collect_body_append: "fst (collect_body b xs) @ snd (collect_body b xs) = xs"
  by (induction xs) (auto simp: Let_def split: prod.splits)

lemma py_loop_inv:
  "L = pre @ rest \<Longrightarrow> i = length pre \<Longrightarrow> cur = drop (nat (start - 1)) pre \<Longrightarrow> 1 \<le> start
   \<Longrightarrow> start \<le> int i + 1 \<Longrightarrow> (0 < i \<longrightarrow> start \<le> int i) \<Longrightarrow> tiled 1 chunks (start - 1)
   \<Longrightarrow> \<forall>c\<in>set chunks. is_slice L c \<and> file_path c = fp
   \<Longrightarrow> py_post L fp (py_loop fp i rest chunks cur start ty)"
proof (induction fp i rest chunks cur start ty arbitrary: pre rule: py_loop.induct)
  case (1 fp i chunks cur start ty)
  note p = "1.prems"
  from p(1) have L: "pre = L" by simp
  show ?case unfolding py_post_def py_loop.simps prod.case
    using p(2-8) unfolding L by blast
next
  case (2 fp i line rest chunks cur start ty)
  note p = "2.prems"
  have Ldef: "L = pre @ line # rest" and idef: "i = length pre" using p(1,2) by simp_all
  have sle: "nat (start - 1) \<le> length pre" using p(4,5) idef by linarith
  show ?case
  proof (cases "func_pattern line \<noteq> None \<or> class_pattern line \<noteq> None")
    case False
    have a: "L = (pre @ [line]) @ rest" using Ldef by simp
    have b: "i + 1 = length (pre @ [line])" using idef by simp
    have c: "cur @ [line] = drop (nat (start - 1)) (pre @ [line])" using p(3) sle by simp
    have d: "start \<le> int (i + 1) + 1" using p(5) by simp
    have e: "0 < i + 1 \<longrightarrow> start \<le> int (i + 1)" using p(5) by simp
    have "py_post L fp (py_loop fp (i + 1) rest chunks (cur @ [line]) start ty)"
      by (rule "2.IH"(2)[OF False a b c p(4) d e p(7) p(8)])
    then show ?thesis using False by (simp only: py_loop.simps if_False)
  next
    case True
    define base where "base = (case func_pattern line of Some n \<Rightarrow> n
                | None \<Rightarrow> (case class_pattern line of Some n \<Rightarrow> n | None \<Rightarrow> 0))"
    define body where "body = fst (collect_body base rest)"
    define rest' where "rest' = snd (collect_body base rest)"
    define chunks1 where "chunks1 = (if cur \<noteq> [] then
                  chunks @ [CodeChunk fp (join_nl cur) start (int i) ty]
                else chunks)"
    have br: "body @ rest' = rest" by (simp add: body_def rest'_def collect_body_append)
    have cur_empty: "cur = [] \<longleftrightarrow> i = 0"
    proof
      assume "cur = []"
      then have "length pre \<le> nat (start - 1)" using p(3) by simp
      then show "i = 0" using p(6) idef p(4) by linarith
    next
      assume "i = 0" then show "cur = []" using p(3) idef by simp
    qed
    have t1: "tiled 1 chunks1 (int i)"
    proof (cases "cur = []")
      case True
      then have "i = 0" using cur_empty by simp
      then have "start = 1" using p(4,5) by simp
      then show ?thesis using True p(7) \<open>i = 0\<close> by (simp add: chunks1_def)
    next
      case False
      then have "start \<le> int i" using cur_empty p(6) by simp
      then have "tiled 1 (chunks @ [CodeChunk fp (join_nl cur) start (int i) ty]) (end_line (CodeChunk fp (join_nl cur) start (int i) ty))"
        by (intro tiled_snoc[OF p(7)]) (simp_all add: CodeChunk_def)
      then show ?thesis using False by (simp add: chunks1_def CodeChunk_def)
    qed
    have s1: "\<forall>c\<in>set chunks1. is_slice L c \<and> file_path c = fp"
    proof (cases "cur = []")
      case True then show ?thesis using p(8) by (simp add: chunks1_def)
    next
      case False
      then have le: "start \<le> int i" using cur_empty p(6) by simp
      have sl: "take (nat (int (length pre) - start + 1)) (drop (nat (start - 1)) (pre @ line # rest)) = drop (nat (start - 1)) pre"
        using p(4,5) idef by (intro slice_prefix) simp_all
      have "cur = take (nat (int i - start + 1)) (drop (nat (start - 1)) L)"
        by (simp only: Ldef idef p(3) sl)
      then have "content (CodeChunk fp (join_nl cur) start (int i) ty) = join_nl (take (nat (int i - start + 1)) (drop (nat (start - 1)) L))"
        by (simp add: CodeChunk_def)
      then have "is_slice L (CodeChunk fp (join_nl cur) start (int i) ty)"
        using le p(4) idef Ldef unfolding is_slice_def by (simp add: CodeChunk_def)
      then show ?thesis using False p(8) by (simp add: chunks1_def CodeChunk_def)
    qed
    have a: "L = (pre @ line # body) @ rest'" using Ldef br by simp
    have b: "i + 1 + length body = length (pre @ line # body)" using idef by simp
    have c: "line # body = drop (nat (int i + 1 - 1)) (pre @ line # body)" using idef by simp
    have d: "int i + 1 \<le> int (i + 1 + length body) + 1" by simp
    have e: "0 < i + 1 + length body \<longrightarrow> int i + 1 \<le> int (i + 1 + length body)" by simp
    have t1': "tiled 1 chunks1 (int i + 1 - 1)" using t1 by simp
    have "py_post L fp (py_loop fp (i + 1 + length body) rest' chunks1 (line # body) (int i + 1)
             (if func_pattern line \<noteq> None then ''function'' else ''class''))"
      unfolding body_def rest'_def chunks1_def base_def
      by (rule "2.IH"(1)[OF True refl refl a[unfolded body_def rest'_def base_def] b[unfolded body_def base_def]
             c[unfolded body_def base_def] _ d[unfolded body_def base_def] e[unfolded body_def base_def]
             t1'[unfolded chunks1_def] s1[unfolded chunks1_def]]) simp
    then show ?thesis using True
      unfolding body_def rest'_def chunks1_def base_def
      by (simp only: py_loop.simps if_True Let_def)
  qed
qed

lemma tiled_nonempty: "tiled s cs n \<Longrightarrow> c \<in> set cs \<Longrightarrow> start_line c \<le> end_line c"
  by (induction cs arbitrary: s) auto

lemma extract_python_chunks_tiled:
  "tiled 1 (extract_python_chunks src fp) (int (length (split_nl src)))
   \<and> (\<forall>c\<in>set (extract_python_chunks src fp). is_slice (split_nl src) c \<and> file_path c = fp)"
proof -
  define L where "L = split_nl src"
  obtain chunks cur start ty where r: "py_loop fp 0 L [] [] 1 ''block'' = (chunks, cur, start, ty)"
    by (cases "py_loop fp 0 L [] [] 1 ''block''") auto
  have "py_post L fp (py_loop fp 0 L [] [] 1 ''block'')"
    by (rule py_loop_inv[where pre = "[]"]) simp_all
  then have t: "tiled 1 chunks (start - 1)"
    and sl: "\<forall>c\<in>set chunks. is_slice L c \<and> file_path c = fp"
    and cur: "cur = drop (nat (start - 1)) L" and s1: "1 \<le> start"
    and s2: "0 < length L \<longrightarrow> start \<le> int (length L)"
    unfolding r py_post_def by simp_all
  have Lne: "0 < length L" using split_nl_nonempty[of src] by (simp add: L_def)
  then have s3: "start \<le> int (length L)" using s2 by simp
  then have cne: "cur \<noteq> []" using cur s1 by simp
  define c where "c = CodeChunk fp (join_nl cur) start (int (length L)) ty"
  have res: "extract_python_chunks src fp = chunks @ [c]"
    using r cne by (simp add: extract_python_chunks_def L_def[symmetric] c_def)
  have "tiled 1 (chunks @ [c]) (end_line c)"
    using s3 by (intro tiled_snoc[OF t]) (simp_all add: c_def CodeChunk_def)
  then have T: "tiled 1 (chunks @ [c]) (int (length L))" by (simp add: c_def CodeChunk_def)
  have "nat (int (length L) - start + 1) = length L - nat (start - 1)" using s1 s3 by linarith
  then have "cur = take (nat (int (length L) - start + 1)) (drop (nat (start - 1)) L)"
    using cur by simp
  then have "is_slice L c" using s1 s3 unfolding is_slice_def by (simp add: c_def CodeChunk_def)
  then have S: "\<forall>x\<in>set (chunks @ [c]). is_slice L x \<and> file_path x = fp"
    using sl by (simp add: c_def CodeChunk_def)
  show ?thesis using T S unfolding res L_def by blast
qed

text \<open>
  Claim C1. For every input text, the chunks of structural (Python) chunking partition
  the lines of the file: read in order, their line ranges list every line number from 1
  to the number of lines exactly once, in ascending order, and no range is empty.
\<close>

theorem structural_chunks_partition:
  "concat (map (\<lambda>c. [start_line c .. end_line c]) (extract_python_chunks src fp))
     = [1 .. int (length (split_nl src))]
   \<and> (\<forall>c\<in>set (extract_python_chunks src fp). start_line c \<le> end_line c)"
  using extract_python_chunks_tiled[of src fp] tiled_ranges tiled_nonempty by blast

theorem structural_chunks_partition_witness:
  "concat (map (\<lambda>c. [start_line c .. end_line c])
       (extract_python_chunks (''x = 1'' @ nl # ''def f():'' @ nl # ''    pass'') ''a.py''))
     = [1 .. int (length (split_nl (''x = 1'' @ nl # ''def f():'' @ nl # ''    pass'')))]
   \<and> list_all (\<lambda>c. start_line c \<le> end_line c)
         (extract_python_chunks (''x = 1'' @ nl # ''def f():'' @ nl # ''    pass'') ''a.py'')
   \<and> length (extract_python_chunks (''x = 1'' @ nl # ''def f():'' @ nl # ''    pass'') ''a.py'') = 2"
proof -
  have e: "extract_python_chunks (''x = 1'' @ nl # ''def f():'' @ nl # ''    pass'') ''a.py''
      = [CodeChunk ''a.py'' ''x = 1'' 1 1 ''block'',
         CodeChunk ''a.py'' (''def f():'' @ nl # ''    pass'') 2 3 ''function'']"
    by code_simp
  show ?thesis
    using structural_chunks_partition
      [of "''x = 1'' @ nl # ''def f():'' @ nl # ''    pass''" "''a.py''"]
    unfolding e by (simp add: list_all_iff)
qed

subsection \<open>The empty text\<close>

lemma extract_python_chunks_empty:
  "extract_python_chunks [] fp = [CodeChunk fp [] 1 1 ''block'']"
  by (simp add: extract_python_chunks_def func_pattern_def class_pattern_def def_tail_def)

lemma chunk_by_size_empty:
  "chunk_by_size [] fp = [CodeChunk fp [] 1 1 ''block'']"
  by (simp add: chunk_by_size_def chunk_by_size_with_def CHUNK_SIZE_def)

text \<open>
  Claim C9, as stated, fails: for the empty text \<open>split\<close> gives one empty line, and both
  chunkers emit it. The empty text of a Python file already gives a chunk.
\<close>

theorem chunk_code_empty_counterexample:
  "chunk_code suffix_of [] ''a.py'' \<noteq> []"
  by (simp add: chunk_code_def extract_python_chunks_empty chunk_by_size_empty CodeChunk_def)

text \<open>
  Claim C9, amended. For the empty input text, \<open>chunk_code\<close> returns exactly one chunk,
  for every file path and extension: a block chunk with empty content spanning line 1
  to line 1.
\<close>

theorem chunk_code_empty:
  "chunk_code path_suffix [] fp = [CodeChunk fp [] 1 1 ''block'']"
  by (simp add: chunk_code_def extract_python_chunks_empty chunk_by_size_empty CodeChunk_def
      Let_def)

subsection \<open>Reconstructing a file from its chunks\<close>

lemma join_take_drop:
  assumes "0 < m" "m < e" "e \<le> length L"
  shows "join_nl (take m L) @ nl # join_nl (drop m (take e L)) = join_nl (take e L)"
proof -
  have a: "take m L \<noteq> []" using assms by auto
  have b: "drop m (take e L) \<noteq> []" using assms by simp
  have "take m L @ drop m (take e L) = take e L"
    using assms by (metis append_take_drop_id min.absorb1 less_imp_le take_take)
  then show ?thesis using join_nl_append[OF a b] by simp
qed

lemma py_slice_from_nat: "py_slice_from xs (int k) = drop k xs"
  by (simp add: py_slice_from_def)

lemma combine_step_upto:
  assumes nonl: "\<forall>l\<in>set L. nl \<notin> set l" and sl: "is_slice L c"
    and st: "start_line c \<le> le + 1" and up: "combined_upto L combined le"
  shows "combined_upto L (combine_step c combined le) (max le (end_line c))"
proof -
  obtain s0 e where s: "start_line c = int s0 + 1" and e: "end_line c = int e"
    and lt: "s0 < e" and el: "e \<le> length L" and ct: "content c = join_nl (drop s0 (take e L))"
    using sl by (rule is_slice_elim)
  have le0: "0 \<le> le" using up unfolding combined_upto_def by auto
  define m where "m = nat le"
  have lem: "le = int m" using le0 by (simp add: m_def)
  have piece_ne: "drop s0 (take e L) \<noteq> []" using lt el by simp
  show ?thesis
  proof (cases "start_line c > le")
    case True
    then have ms: "m = s0" using st s lem by linarith
    have step: "combine_step c combined le = combined @ [join_nl (drop s0 (take e L))]"
      using True by (simp add: combine_step_def ct)
    have mx: "max le (end_line c) = int e" using lem ms lt e by simp
    show ?thesis
    proof (cases "m = 0")
      case True
      then have "combined = []" using up lem unfolding combined_upto_def by simp
      then show ?thesis unfolding step mx combined_upto_def using True ms lt el by simp
    next
      case False
      then have c: "combined \<noteq> []" and j: "join_nl combined = join_nl (take m L)"
        using up lem unfolding combined_upto_def by simp_all
      have "join_nl (combined @ [join_nl (drop s0 (take e L))]) = join_nl (take e L)"
        using join_nl_snoc_piece[OF c] j join_take_drop[of m e L] False ms lt el by simp
      then show ?thesis unfolding step mx combined_upto_def using lt el by simp
    qed
  next
    case False
    note nostart = False
    show ?thesis
    proof (cases "end_line c > le")
      case True
      have sm: "s0 < m" "m < e" using nostart True s e lem by linarith+
      have c: "combined \<noteq> []" and j: "join_nl combined = join_nl (take m L)"
        using up lem sm unfolding combined_upto_def by simp_all
      have nn: "\<forall>l\<in>set (drop s0 (take e L)). nl \<notin> set l"
        using nonl by (meson in_set_dropD in_set_takeD)
      have lines: "split_nl (content c) = drop s0 (take e L)"
        unfolding ct by (rule split_join[OF piece_ne nn])
      have ns: "le - start_line c + 1 = int (m - s0)" using s lem sm by simp
      have len: "length (drop s0 (take e L)) = e - s0" using el by simp
      have sl2: "py_slice_from (drop s0 (take e L)) (int (m - s0)) = drop m (take e L)"
        unfolding py_slice_from_nat using sm by simp
      have step: "combine_step c combined le = combined @ [join_nl (drop m (take e L))]"
        using nostart True sm unfolding combine_step_def lines ns Let_def len sl2 by simp
      have mx: "max le (end_line c) = int e" using lem sm e by simp
      have "join_nl (combined @ [join_nl (drop m (take e L))]) = join_nl (take e L)"
        using join_nl_snoc_piece[OF c] j join_take_drop[of m e L] sm el by simp
      then show ?thesis unfolding step mx combined_upto_def using lt el by simp
    next
      case False
      then have "combine_step c combined le = combined" "max le (end_line c) = le"
        using nostart by (simp_all add: combine_step_def)
      then show ?thesis using up by simp
    qed
  qed
qed

lemma combine_loop_upto:
  "\<forall>l\<in>set L. nl \<notin> set l \<Longrightarrow> linked L le cs \<Longrightarrow> combined_upto L combined le
   \<Longrightarrow> combined_upto L (combine_loop cs combined le) (reach le cs)"
proof (induction cs arbitrary: combined le)
  case Nil then show ?case by simp
next
  case (Cons c cs)
  from Cons.prems(2) have sl: "is_slice L c" and st: "start_line c \<le> le + 1"
    and lk: "linked L (max le (end_line c)) cs" by simp_all
  have "combined_upto L (combine_step c combined le) (max le (end_line c))"
    by (rule combine_step_upto[OF Cons.prems(1) sl st Cons.prems(3)])
  from Cons.IH[OF Cons.prems(1) lk this] show ?case by simp
qed

lemma get_file_context_covering:
  assumes ne: "L \<noteq> []" and nonl: "\<forall>l\<in>set L. nl \<notin> set l"
    and fp: "\<forall>c\<in>set cs. file_path c = fp" and srt: "sorted (map start_line cs)"
    and lk: "linked L 0 cs" and rc: "reach 0 cs = int (length L)"
  shows "get_file_context (st\<lparr>store_chunks := cs\<rparr>) fp = Some (join_nl L)"
proof -
  have cne: "cs \<noteq> []" using rc ne by (cases cs) auto
  have f: "filter (\<lambda>chunk. file_path chunk = fp) cs = cs" using fp by simp
  have s: "sort_key start_line cs = cs" using srt by (rule sort_key_id_if_sorted)
  have "combined_upto L [] 0" by (simp add: combined_upto_def)
  from combine_loop_upto[OF nonl lk this]
  have "combined_upto L (combine_loop cs [] 0) (int (length L))" unfolding rc .
  then have "join_nl (combine_loop cs [] 0) = join_nl L"
    using ne unfolding combined_upto_def by simp
  then show ?thesis using cne by (simp add: get_file_context_def f s)
qed

lemma tiled_linked:
  "tiled s cs n \<Longrightarrow> \<forall>c\<in>set cs. is_slice L c \<Longrightarrow>
   linked L (s - 1) cs \<and> reach (s - 1) cs = n \<and> sorted (map start_line cs)
   \<and> (\<forall>c\<in>set cs. s \<le> start_line c)"
proof (induction cs arbitrary: s)
  case Nil then show ?case by simp
next
  case (Cons c cs)
  from Cons.prems(1) have a: "start_line c = s" "s \<le> end_line c"
    and t: "tiled (end_line c + 1) cs n" by simp_all
  have mx: "max (s - 1) (end_line c) = end_line c + 1 - 1" using a by simp
  from Cons.IH[OF t] Cons.prems(2)
  have ih: "linked L (end_line c + 1 - 1) cs" "reach (end_line c + 1 - 1) cs = n"
    "sorted (map start_line cs)" "\<forall>x\<in>set cs. end_line c + 1 \<le> start_line x" by simp_all
  have "\<forall>x\<in>set cs. s \<le> start_line x" using ih(4) a by fastforce
  then show ?case using a ih Cons.prems(2) unfolding mx[symmetric] by (simp add: mx)
qed

lemma structural_roundtrip:
  "get_file_context (st\<lparr>store_chunks := extract_python_chunks src fp\<rparr>) fp = Some src"
proof -
  let ?L = "split_nl src"
  have t: "tiled 1 (extract_python_chunks src fp) (int (length ?L))"
    and s: "\<forall>c\<in>set (extract_python_chunks src fp). is_slice ?L c \<and> file_path c = fp"
    using extract_python_chunks_tiled[of src fp] by simp_all
  have s': "\<forall>c\<in>set (extract_python_chunks src fp). is_slice ?L c" using s by simp
  from tiled_linked[OF t s']
  have lk: "linked ?L 0 (extract_python_chunks src fp)"
    and rc: "reach 0 (extract_python_chunks src fp) = int (length ?L)"
    and srt: "sorted (map start_line (extract_python_chunks src fp))" by simp_all
  have "get_file_context (st\<lparr>store_chunks := extract_python_chunks src fp\<rparr>) fp = Some (join_nl ?L)"
    by (rule get_file_context_covering[OF split_nl_nonempty _ _ srt lk rc])
       (use s split_nl_no_nl in auto)
  then show ?thesis by (simp add: join_split)
qed

subsection \<open>The fixed-size chunker\<close>

lemma overlap_loop_take:
  "\<exists>k\<le>length ys. overlap_loop ov ys acc oc = (rev (take k ys) @ acc, oc + line_chars (take k ys))
      \<and> (k = 0 \<longleftrightarrow> (ys = [] \<or> oc + length (hd ys) > ov))"
proof (induction ys arbitrary: acc oc)
  case Nil then show ?case by (simp add: line_chars_def)
next
  case (Cons y ys)
  show ?case
  proof (cases "oc + length y > ov")
    case True
    then show ?thesis by (intro exI[of _ 0]) (simp add: line_chars_def)
  next
    case False
    obtain k where k: "k \<le> length ys"
      "overlap_loop ov ys (y # acc) (oc + length y + 1) = (rev (take k ys) @ y # acc, oc + length y + 1 + line_chars (take k ys))"
      using Cons.IH[of "y # acc" "oc + length y + 1"] by blast
    show ?thesis using False k by (intro exI[of _ "Suc k"]) (simp add: line_chars_def)
  qed
qed

lemma overlap_window_drop:
  "\<exists>j\<le>length ls. overlap_loop ov (rev ls) [] 0 = (drop j ls, line_chars (drop j ls))
      \<and> (j = length ls \<longleftrightarrow> (ls = [] \<or> length (last ls) > ov))"
proof -
  obtain k where k: "k \<le> length (rev ls)"
    "overlap_loop ov (rev ls) [] 0 = (rev (take k (rev ls)) @ [], 0 + line_chars (take k (rev ls)))"
    "k = 0 \<longleftrightarrow> (rev ls = [] \<or> 0 + length (hd (rev ls)) > ov)"
    using overlap_loop_take[of "rev ls" ov "[]" 0] by blast
  have r: "rev (take k (rev ls)) = drop (length ls - k) ls" by (simp add: rev_take)
  have lc: "line_chars (take k (rev ls)) = line_chars (drop (length ls - k) ls)"
  proof -
    have "line_chars (take k (rev ls)) = line_chars (rev (drop (length ls - k) ls))"
      using r by (metis rev_rev_ident)
    also have "\<dots> = line_chars (drop (length ls - k) ls)"
      unfolding line_chars_def by (simp add: rev_map[symmetric])
    finally show ?thesis .
  qed
  have e: "length ls - k = length ls \<longleftrightarrow> (ls = [] \<or> length (last ls) > ov)"
  proof (cases "ls = []")
    case True then show ?thesis by simp
  next
    case False
    then have "hd (rev ls) = last ls" by (simp add: hd_rev)
    moreover have "length ls - k = length ls \<longleftrightarrow> k = 0" using False k(1) by auto
    ultimately show ?thesis using k(3) False by simp
  qed
  show ?thesis
    by (intro exI[of _ "length ls - k"]) (use k r lc e in simp)
qed

lemma length_join_nl: "ls \<noteq> [] \<Longrightarrow> length (join_nl ls) + 1 = line_chars ls"
proof (induction ls)
  case Nil then show ?case by simp
next
  case (Cons l ls)
  show ?case
  proof (cases "ls = []")
    case True then show ?thesis by (simp add: line_chars_def)
  next
    case False
    then show ?thesis using Cons.IH by (simp add: join_nl_Cons line_chars_def)
  qed
qed

lemma overlapping_snoc:
  "overlapping ov (cs @ [d]) = (overlapping ov cs \<and> (cs = [] \<or> overlaps_with ov (last cs) d))"
proof (induction cs rule: overlapping.induct)
  case (1 ov) then show ?case by simp
next
  case (2 ov c) then show ?case by simp
next
  case (3 ov c e cs) then show ?case by auto
qed

lemma size_inv_keep:
  assumes inv: "size_inv sz ov L fp pre (chunks, cur, chars, start)"
  shows "size_inv sz ov L fp (pre @ [line]) (chunks, cur @ [line], chars + length line + 1, start)"
proof -
  from inv have s2: "nat (start - 1) \<le> length pre" and cu: "cur = drop (nat (start - 1)) pre"
    and ch: "chars = line_chars cur" and r1: "reach 0 chunks \<le> int (length pre)"
    and lastp: "chunks = [] \<or>
          (prefix (overlap_window ov (split_nl (content (last chunks)))) cur \<and>
           start = end_line (last chunks)
                     - int (length (overlap_window ov (split_nl (content (last chunks))))) + 1)"
    unfolding size_inv_def prod.case by blast+
  have a: "cur @ [line] = drop (nat (start - 1)) (pre @ [line])" using s2 cu by simp
  have b: "chars + length line + 1 = line_chars (cur @ [line])" using ch by (simp add: line_chars_def)
  have c: "reach 0 chunks \<le> int (length (pre @ [line]))" using r1 by simp
  have d: "nat (start - 1) \<le> length (pre @ [line])" using s2 by simp
  have e: "chunks = [] \<or>
          (prefix (overlap_window ov (split_nl (content (last chunks)))) (cur @ [line]) \<and>
           start = end_line (last chunks)
                     - int (length (overlap_window ov (split_nl (content (last chunks))))) + 1)"
    using lastp prefix_prefix by blast
  show ?thesis using inv a b c d e unfolding size_inv_def prod.case by blast
qed

lemma size_inv_emit:
  assumes L: "L = pre @ line # rest" and nonl: "\<forall>l\<in>set L. nl \<notin> set l"
    and inv: "size_inv sz ov L fp pre (chunks, cur, chars, start)"
    and big: "sz \<le> chars + length line + 1"
    and ol: "overlap_loop ov (rev (cur @ [line])) [] 0 = (ovl, oc)"
  shows "size_inv sz ov L fp (pre @ [line])
           (chunks @ [CodeChunk fp (join_nl (cur @ [line])) start (int (length pre + 1)) ''block''],
            ovl, oc, int (length pre + 1) - int (length ovl) + 1)"
proof -
  let ?c = "CodeChunk fp (join_nl (cur @ [line])) start (int (length pre + 1)) ''block''"
  let ?cs = "chunks @ [?c]"
  let ?start' = "int (length pre + 1) - int (length ovl) + 1"
  let ?cur' = "cur @ [line]"
  from inv have lk: "linked L 0 chunks" and srt: "sorted (map start_line chunks)"
    and ovp: "overlapping ov chunks"
    and la: "list_all (\<lambda>c. file_path c = fp \<and> start_line c \<le> start
                       \<and> sz \<le> length (content c) + 1 \<and> chunk_type c = ''block'') chunks"
    and r1: "reach 0 chunks \<le> int (length pre)" and r2: "start \<le> reach 0 chunks + 1"
    and s1: "1 \<le> start"
    and s2: "nat (start - 1) \<le> length pre" and cu: "cur = drop (nat (start - 1)) pre"
    and ch: "chars = line_chars cur"
    and lastp: "chunks = [] \<or>
          (prefix (overlap_window ov (split_nl (content (last chunks)))) cur \<and>
           start = end_line (last chunks)
                     - int (length (overlap_window ov (split_nl (content (last chunks))))) + 1)"
    unfolding size_inv_def prod.case by blast+
  define s0 where "s0 = nat (start - 1)"
  define n where "n = length pre"
  have st: "start = int s0 + 1" using s1 by (simp add: s0_def)
  have s0n: "s0 \<le> n" using s2 by (simp add: s0_def n_def)
  have tk: "take (n + 1) L = pre @ [line]" by (simp add: L n_def)
  have cur': "?cur' = drop s0 (take (n + 1) L)" unfolding tk using cu s0n by (simp add: s0_def n_def)
  have nL: "n + 1 \<le> length L" by (simp add: L n_def)
  have len_cur': "length ?cur' = n + 1 - s0" unfolding cur' using nL by simp
  have ceq: "?c = CodeChunk fp (join_nl (drop s0 (take (n + 1) L))) (int s0 + 1) (int (n + 1)) ''block''"
    using cur' st by (simp add: n_def)
  have slc: "is_slice L ?c" unfolding ceq by (rule is_slice_intro) (use s0n nL in simp_all)
  obtain j where j: "j \<le> length ?cur'"
    and jo: "overlap_loop ov (rev ?cur') [] 0 = (drop j ?cur', line_chars (drop j ?cur'))"
    using overlap_window_drop[of ?cur' ov] by blast
  have ovl: "ovl = drop j ?cur'" and oc: "oc = line_chars ovl" using ol jo by simp_all
  have len_ovl: "length ovl = n + 1 - s0 - j" unfolding ovl using len_cur' by simp
  have jn: "s0 + j \<le> n + 1" using j len_cur' s0n by linarith
  have st': "?start' = int (s0 + j) + 1" using len_ovl jn by (simp add: n_def)
  have nst': "nat (?start' - 1) = s0 + j" unfolding st' by simp
  have cne: "?cur' \<noteq> []" by simp
  have cnl: "\<forall>l\<in>set ?cur'. nl \<notin> set l"
  proof
    fix l assume "l \<in> set ?cur'"
    then have "l \<in> set (take (n + 1) L)" unfolding cur' by (rule in_set_dropD)
    then have "l \<in> set L" by (rule in_set_takeD)
    then show "nl \<notin> set l" using nonl by blast
  qed
  have spl: "split_nl (content ?c) = ?cur'"
    using split_join[OF cne cnl] by (simp add: CodeChunk_def)
  have win: "overlap_window ov (split_nl (content ?c)) = ovl"
    unfolding spl overlap_window_def ol by simp
  have olds: "\<forall>x\<in>set chunks. start_line x \<le> start" using la by (simp add: list_all_iff)
  have ss': "start \<le> ?start'" unfolding st' st by simp
  \<comment> \<open>the conjuncts of the invariant\<close>
  have c1: "linked L 0 ?cs" unfolding linked_snoc using lk slc r2 by (simp add: CodeChunk_def)
  have c2: "sorted (map start_line ?cs)"
    using srt olds by (simp add: sorted_append CodeChunk_def)
  have c3: "overlapping ov ?cs"
  proof -
    have "chunks = [] \<or> overlaps_with ov (last chunks) ?c"
    proof (cases "chunks = []")
      case True then show ?thesis by simp
    next
      case False
      then have p: "prefix (overlap_window ov (split_nl (content (last chunks)))) cur"
        and q: "start = end_line (last chunks)
                     - int (length (overlap_window ov (split_nl (content (last chunks))))) + 1"
        using lastp by blast+
      have "prefix (overlap_window ov (split_nl (content (last chunks)))) (split_nl (content ?c))"
        unfolding spl using p by (rule prefix_prefix)
      moreover have "start_line ?c = end_line (last chunks)
                     - int (length (overlap_window ov (split_nl (content (last chunks))))) + 1"
        using q by (simp add: CodeChunk_def)
      ultimately show ?thesis unfolding overlaps_with_def by blast
    qed
    then show ?thesis unfolding overlapping_snoc using ovp by blast
  qed
  have c4: "list_all (\<lambda>c. file_path c = fp \<and> start_line c \<le> ?start'
                       \<and> sz \<le> length (content c) + 1 \<and> chunk_type c = ''block'') ?cs"
  proof -
    have "length (content ?c) + 1 = line_chars ?cur'"
      using length_join_nl[OF cne] by (simp add: CodeChunk_def)
    also have "\<dots> = chars + length line + 1" using ch by (simp add: line_chars_def)
    finally have "sz \<le> length (content ?c) + 1" using big by simp
    moreover have "\<forall>x\<in>set chunks. file_path x = fp \<and> start_line x \<le> ?start'
                       \<and> sz \<le> length (content x) + 1 \<and> chunk_type x = ''block''"
      using la ss' by (auto simp: list_all_iff)
    moreover have "file_path ?c = fp" "start_line ?c \<le> ?start'" "chunk_type ?c = ''block''"
      using ss' by (simp_all add: CodeChunk_def)
    ultimately show ?thesis unfolding list_all_iff by auto
  qed
  have rc: "reach 0 ?cs = int (n + 1)"
    unfolding reach_snoc using r1 by (simp add: CodeChunk_def n_def)
  have c5: "reach 0 ?cs \<le> int (length (pre @ [line]))" unfolding rc by (simp add: n_def)
  have c6: "?start' \<le> reach 0 ?cs + 1" unfolding rc st' using jn by simp
  have c7: "1 \<le> ?start'" unfolding st' by simp
  have c8: "nat (?start' - 1) \<le> length (pre @ [line])" unfolding nst' using jn by (simp add: n_def)
  have c9a: "ovl = drop (s0 + j) (pre @ [line])"
    unfolding ovl cur' tk by (simp only: drop_drop add.commute[of j s0])
  have c9: "ovl = drop (nat (?start' - 1)) (pre @ [line])"
    by (subst nst') (rule c9a)
  have c10: "oc = line_chars ovl" by (rule oc)
  have c11: "?cs = [] \<or>
          (prefix (overlap_window ov (split_nl (content (last ?cs)))) ovl \<and>
           ?start' = end_line (last ?cs)
                     - int (length (overlap_window ov (split_nl (content (last ?cs))))) + 1)"
  proof -
    have l: "last ?cs = ?c" by simp
    have "prefix (overlap_window ov (split_nl (content ?c))) ovl" unfolding win by simp
    moreover have "?start' = end_line ?c - int (length (overlap_window ov (split_nl (content ?c)))) + 1"
      unfolding win by (simp add: CodeChunk_def)
    ultimately show ?thesis unfolding l by blast
  qed
  show ?thesis unfolding size_inv_def prod.case
    using c1 c2 c3 c4 c5 c6 c7 c8 c9 c10 c11 by blast
qed

lemma size_loop_inv:
  "L = pre @ rest \<Longrightarrow> \<forall>l\<in>set L. nl \<notin> set l \<Longrightarrow> i = length pre + 1
   \<Longrightarrow> size_inv sz ov L fp pre (chunks, cur, chars, start)
   \<Longrightarrow> size_inv sz ov L fp L (size_loop sz ov fp i rest chunks cur chars start)"
proof (induction rest arbitrary: pre i chunks cur chars start)
  case Nil
  then show ?case by simp
next
  case (Cons line rest)
  have L': "L = (pre @ [line]) @ rest" using Cons.prems(1) by simp
  have i': "i + 1 = length (pre @ [line]) + 1" using Cons.prems(3) by simp
  show ?case
  proof (cases "sz \<le> chars + length line + 1")
    case True
    obtain ovl oc where ol: "overlap_loop ov (rev (cur @ [line])) [] 0 = (ovl, oc)"
      by (cases "overlap_loop ov (rev (cur @ [line])) [] 0") auto
    have inv: "size_inv sz ov L fp (pre @ [line])
           (chunks @ [CodeChunk fp (join_nl (cur @ [line])) start (int (length pre + 1)) ''block''],
            ovl, oc, int (length pre + 1) - int (length ovl) + 1)"
      by (rule size_inv_emit[OF Cons.prems(1,2,4) True ol])
    have ih: "size_inv sz ov L fp L (size_loop sz ov fp (i + 1) rest
            (chunks @ [CodeChunk fp (join_nl (cur @ [line])) start (int (length pre + 1)) ''block''])
            ovl oc (int (length pre + 1) - int (length ovl) + 1))"
      by (rule Cons.IH[OF L' Cons.prems(2) i' inv])
    have ii: "int i = int (length pre + 1)" using Cons.prems(3) by simp
    have eq: "size_loop sz ov fp i (line # rest) chunks cur chars start
        = size_loop sz ov fp (i + 1) rest
            (chunks @ [CodeChunk fp (join_nl (cur @ [line])) start (int (length pre + 1)) ''block''])
            ovl oc (int (length pre + 1) - int (length ovl) + 1)"
      unfolding size_loop.simps Let_def ol prod.case ii using True by (simp only: if_True)
    show ?thesis unfolding eq by (rule ih)
  next
    case False
    have inv: "size_inv sz ov L fp (pre @ [line]) (chunks, cur @ [line], chars + length line + 1, start)"
      by (rule size_inv_keep[OF Cons.prems(4)])
    have ih: "size_inv sz ov L fp L (size_loop sz ov fp (i + 1) rest chunks (cur @ [line])
             (chars + length line + 1) start)"
      by (rule Cons.IH[OF L' Cons.prems(2) i' inv])
    have eq: "size_loop sz ov fp i (line # rest) chunks cur chars start
        = size_loop sz ov fp (i + 1) rest chunks (cur @ [line]) (chars + length line + 1) start"
      unfolding size_loop.simps Let_def using False by (simp only: if_False)
    show ?thesis unfolding eq by (rule ih)
  qed
qed

lemma size_inv_init: "size_inv sz ov L fp [] ([], [], 0, 1)"
  unfolding size_inv_def prod.case line_chars_def
  by (intro conjI disjI1) simp_all

lemma chunk_by_size_with_props:
  "linked (split_nl src) 0 (chunk_by_size_with sz ov src fp)
   \<and> reach 0 (chunk_by_size_with sz ov src fp) = int (length (split_nl src))
   \<and> sorted (map start_line (chunk_by_size_with sz ov src fp))
   \<and> overlapping ov (chunk_by_size_with sz ov src fp)
   \<and> list_all (\<lambda>c. file_path c = fp \<and> chunk_type c = ''block'') (chunk_by_size_with sz ov src fp)
   \<and> list_all (\<lambda>c. sz \<le> length (content c) + 1) (butlast (chunk_by_size_with sz ov src fp))"
proof -
  define L where "L = split_nl src"
  define cs where "cs = chunk_by_size_with sz ov src fp"
  have nonl: "\<forall>l\<in>set L. nl \<notin> set l" unfolding L_def using split_nl_no_nl by blast
  obtain chunks cur chars start where
    r: "size_loop sz ov fp 1 L [] [] 0 1 = (chunks, cur, chars, start)"
    using prod_cases4 by blast
  have "size_inv sz ov L fp L (size_loop sz ov fp 1 L [] [] 0 1)"
    by (rule size_loop_inv[where pre = "[]", OF _ nonl _ size_inv_init]) simp_all
  then have inv: "size_inv sz ov L fp L (chunks, cur, chars, start)" unfolding r .
  from inv have lk: "linked L 0 chunks" and srt: "sorted (map start_line chunks)"
    and ovp: "overlapping ov chunks"
    and la: "list_all (\<lambda>c. file_path c = fp \<and> start_line c \<le> start
                       \<and> sz \<le> length (content c) + 1 \<and> chunk_type c = ''block'') chunks"
    and r1: "reach 0 chunks \<le> int (length L)" and r2: "start \<le> reach 0 chunks + 1"
    and s1: "1 \<le> start"
    and s2: "nat (start - 1) \<le> length L" and cu: "cur = drop (nat (start - 1)) L"
    and lastp: "chunks = [] \<or>
          (prefix (overlap_window ov (split_nl (content (last chunks)))) cur \<and>
           start = end_line (last chunks)
                     - int (length (overlap_window ov (split_nl (content (last chunks))))) + 1)"
    unfolding size_inv_def prod.case by blast+
  define s0 where "s0 = nat (start - 1)"
  have st: "start = int s0 + 1" using s1 by (simp add: s0_def)
  have cu0: "cur = drop s0 L" using cu unfolding s0_def .
  let ?c = "CodeChunk fp (join_nl cur) start (int (length L)) ''block''"
  have res: "cs = (if cur \<noteq> [] then chunks @ [?c] else chunks)"
    unfolding cs_def chunk_by_size_with_def L_def[symmetric] Let_def r prod.case by (rule refl)
  have la1: "\<forall>c\<in>set chunks. file_path c = fp \<and> chunk_type c = ''block''"
    and la2: "\<forall>c\<in>set chunks. sz \<le> length (content c) + 1"
    and la3: "\<forall>c\<in>set chunks. start_line c \<le> start"
    using la unfolding list_all_iff by blast+
  have goal: "linked L 0 cs \<and> reach 0 cs = int (length L) \<and> sorted (map start_line cs)
    \<and> overlapping ov cs \<and> list_all (\<lambda>c. file_path c = fp \<and> chunk_type c = ''block'') cs
    \<and> list_all (\<lambda>c. sz \<le> length (content c) + 1) (butlast cs)"
  proof (cases "cur = []")
    case True
    then have "length L \<le> s0" using cu0 by simp
    then have a2: "reach 0 chunks = int (length L)" using r1 r2 st by linarith
    have a6: "list_all (\<lambda>c. sz \<le> length (content c) + 1) (butlast chunks)"
      unfolding list_all_iff using la2 in_set_butlastD by fast
    have a5: "list_all (\<lambda>c. file_path c = fp \<and> chunk_type c = ''block'') chunks"
      unfolding list_all_iff using la1 by blast
    have "cs = chunks" using True res by simp
    then show ?thesis using lk a2 srt ovp a5 a6 by blast
  next
    case False
    then have s0L: "s0 < length L" using cu0 by simp
    have ceq: "?c = CodeChunk fp (join_nl (drop s0 (take (length L) L))) (int s0 + 1) (int (length L)) ''block''"
      using cu0 st by simp
    have slc: "is_slice L ?c" unfolding ceq by (rule is_slice_intro) (use s0L in simp_all)
    have cnl: "\<forall>l\<in>set cur. nl \<notin> set l"
    proof
      fix l assume "l \<in> set cur"
      then have "l \<in> set L" unfolding cu by (rule in_set_dropD)
      then show "nl \<notin> set l" using nonl by blast
    qed
    have spl: "split_nl (content ?c) = cur" using split_join[OF False cnl] by (simp add: CodeChunk_def)
    have a1: "linked L 0 (chunks @ [?c])" unfolding linked_snoc using lk slc r2 by (simp add: CodeChunk_def)
    have a2: "reach 0 (chunks @ [?c]) = int (length L)"
      unfolding reach_snoc using r1 by (simp add: CodeChunk_def)
    have a3: "sorted (map start_line (chunks @ [?c]))"
      using srt la3 by (simp add: sorted_append CodeChunk_def)
    have "chunks = [] \<or> overlaps_with ov (last chunks) ?c"
    proof (cases "chunks = []")
      case True then show ?thesis by simp
    next
      case False
      then have p: "prefix (overlap_window ov (split_nl (content (last chunks)))) cur"
        and q: "start = end_line (last chunks)
                     - int (length (overlap_window ov (split_nl (content (last chunks))))) + 1"
        using lastp by blast+
      have "start_line ?c = start" by (simp add: CodeChunk_def)
      then show ?thesis unfolding overlaps_with_def spl using p q by simp
    qed
    then have a4: "overlapping ov (chunks @ [?c])" unfolding overlapping_snoc using ovp by blast
    have a5: "list_all (\<lambda>c. file_path c = fp \<and> chunk_type c = ''block'') (chunks @ [?c])"
      using la1 by (simp add: list_all_iff CodeChunk_def)
    have a6: "list_all (\<lambda>c. sz \<le> length (content c) + 1) (butlast (chunks @ [?c]))"
      using la2 by (simp add: list_all_iff)
    have "cs = chunks @ [?c]" using False res by simp
    then show ?thesis using a1 a2 a3 a4 a5 a6 by simp
  qed
  then show ?thesis unfolding cs_def L_def .
qed

lemma size_roundtrip:
  "get_file_context (st\<lparr>store_chunks := chunk_by_size_with sz ov src fp\<rparr>) fp = Some src"
proof -
  let ?L = "split_nl src" and ?cs = "chunk_by_size_with sz ov src fp"
  have p: "linked ?L 0 ?cs" "reach 0 ?cs = int (length ?L)" "sorted (map start_line ?cs)"
    "list_all (\<lambda>c. file_path c = fp \<and> chunk_type c = ''block'') ?cs"
    using chunk_by_size_with_props by blast+
  have fp: "\<forall>c\<in>set ?cs. file_path c = fp" using p(4) unfolding list_all_iff by blast
  have nonl: "\<forall>l\<in>set ?L. nl \<notin> set l" using split_nl_no_nl by blast
  have "get_file_context (st\<lparr>store_chunks := ?cs\<rparr>) fp = Some (join_nl ?L)"
    by (rule get_file_context_covering[OF split_nl_nonempty nonl fp p(3) p(1) p(2)])
  then show ?thesis by (simp add: join_split)
qed

text \<open>
  Claim C3. For every file content, chunking it (by \<open>chunk_code\<close>, by the structural
  chunker, or by the fixed-size chunker with overlap) and then reconstructing it with
  \<open>get_file_context\<close> from a store holding those chunks yields the original text.
\<close>

theorem chunk_roundtrip:
  "get_file_context (st\<lparr>store_chunks := chunk_code path_suffix src fp\<rparr>) fp = Some src
   \<and> get_file_context (st\<lparr>store_chunks := extract_python_chunks src fp\<rparr>) fp = Some src
   \<and> get_file_context (st\<lparr>store_chunks := chunk_by_size src fp\<rparr>) fp = Some src"
proof -
  have a: "get_file_context (st\<lparr>store_chunks := extract_python_chunks src fp\<rparr>) fp = Some src"
    by (rule structural_roundtrip)
  have b: "get_file_context (st\<lparr>store_chunks := chunk_by_size src fp\<rparr>) fp = Some src"
    unfolding chunk_by_size_def by (rule size_roundtrip)
  have "chunk_code path_suffix src fp = extract_python_chunks src fp
        \<or> chunk_code path_suffix src fp = chunk_by_size src fp"
    unfolding chunk_code_def Let_def by (cases "lower (path_suffix fp) = ''.py''";
      cases "length (extract_python_chunks src fp) = 1 \<and>
              CHUNK_SIZE * 2 < length (content (hd (extract_python_chunks src fp)))")
       (simp_all only: if_True if_False simp_thms)
  then have "get_file_context (st\<lparr>store_chunks := chunk_code path_suffix src fp\<rparr>) fp = Some src"
    using a b by (elim disjE) (simp_all only:)
  then show ?thesis using a b by blast
qed

subsection \<open>Sizes and overlap of fixed-size chunks\<close>

lemma chunk_by_size_long_line:
  assumes "nl \<notin> set l" "length l = 1499"
  shows "chunk_by_size (l @ nl # ''b'') fp
   = [CodeChunk fp l 1 1 ''block'', CodeChunk fp ''b'' 2 2 ''block'']"
proof -
  have b: "split_nl ''b'' = [''b'']" by (simp add: nl_def)
  have s: "split_nl (l @ nl # ''b'') = [l, ''b'']"
    unfolding split_nl_append[OF assms(1)] b by (rule refl)
  show ?thesis
    unfolding chunk_by_size_def chunk_by_size_with_def s Let_def
    using assms(2) by (simp add: CHUNK_SIZE_def CHUNK_OVERLAP_def)
qed

lemma overlapping_successively: "overlapping ov cs \<Longrightarrow> successively (overlaps_with ov) cs"
  by (induction ov cs rule: overlapping.induct) simp_all

lemma overlap_window_suffix: "suffix (overlap_window ov ls) ls"
  using overlap_window_drop[of ls ov] unfolding overlap_window_def
  by (metis fst_conv suffix_drop)

lemma overlap_window_empty: "overlap_window ov ls = [] \<longleftrightarrow> ls = [] \<or> ov < length (last ls)"
proof -
  obtain j where j: "j \<le> length ls" "overlap_loop ov (rev ls) [] 0 = (drop j ls, line_chars (drop j ls))"
      "j = length ls \<longleftrightarrow> (ls = [] \<or> length (last ls) > ov)"
    using overlap_window_drop[of ls ov] by blast
  have "overlap_window ov ls = drop j ls" unfolding overlap_window_def j(2) by simp
  then show ?thesis using j(1,3) by auto
qed

lemma overlaps_shares: "overlaps_with ov c d \<Longrightarrow> shares_window ov c d"
  unfolding overlaps_with_def shares_window_def
  using overlap_window_suffix[of ov "split_nl (content c)"]
    overlap_window_empty[of ov "split_nl (content c)"] split_nl_nonempty[of "content c"]
  by blast

text \<open>
  Claim C8, as stated, fails with the configured sizes (target 1500, overlap 200): a
  first line of 1499 characters closes a chunk of 1499 characters, and since that line
  is longer than the overlap budget the next chunk shares no line with it.
\<close>

theorem chunk_by_size_counterexample:
  "chunk_by_size (replicate 1499 (CHR ''a'') @ nl # ''b'') ''f.js''
     = [CodeChunk ''f.js'' (replicate 1499 (CHR ''a'')) 1 1 ''block'',
        CodeChunk ''f.js'' ''b'' 2 2 ''block'']
   \<and> length (replicate 1499 (CHR ''a'')) < CHUNK_SIZE \<and> 0 < CHUNK_OVERLAP"
  using chunk_by_size_long_line[of "replicate 1499 (CHR ''a'')" "''f.js''"]
  by (simp add: nl_def CHUNK_SIZE_def CHUNK_OVERLAP_def)

text \<open>
  Claim C8, amended. For every chunk sequence of the fixed-size fallback with target size
  \<open>T\<close> and overlap \<open>O\<close>, every non-final chunk has at least \<open>T - 1\<close> content
  characters, and each consecutive pair of chunks shares the overlap window of the
  earlier chunk: a run of its trailing lines that reappears, in order, at the head of the
  later chunk, and that is empty exactly when the last line of the earlier chunk is
  longer than \<open>O\<close> characters.
\<close>

theorem chunk_by_size_sizes_and_overlap:
  "list_all (\<lambda>c. T \<le> length (content c) + 1) (butlast (chunk_by_size_with T ov src fp))
   \<and> successively (shares_window ov) (chunk_by_size_with T ov src fp)"
proof -
  have a: "list_all (\<lambda>c. T \<le> length (content c) + 1) (butlast (chunk_by_size_with T ov src fp))"
    and b: "overlapping ov (chunk_by_size_with T ov src fp)"
    using chunk_by_size_with_props by blast+
  have "successively (overlaps_with ov) (chunk_by_size_with T ov src fp)"
    using b by (rule overlapping_successively)
  then have "successively (shares_window ov) (chunk_by_size_with T ov src fp)"
    by (rule successively_mono) (simp_all add: overlaps_shares)
  then show ?thesis using a by blast
qed

subsection \<open>The body of a definition\<close>

lemma line_facts:
  "func_pattern ''a = 1'' = None" "class_pattern ''a = 1'' = None"
  "func_pattern ''def f():'' = Some 0"
  "func_pattern ''    x = 1'' = None" "class_pattern ''    x = 1'' = None"
  "strip ''    x = 1'' = ''x = 1''" "lstrip ''    x = 1'' = ''x = 1''"
  "func_pattern ''b = 2'' = None" "class_pattern ''b = 2'' = None"
  "strip ''b = 2'' = ''b = 2''" "lstrip ''b = 2'' = ''b = 2''"
  "func_pattern ''class C:'' = None" "class_pattern ''class C:'' = Some 0"
  "strip ''class C:'' = ''class C:''" "lstrip ''class C:'' = ''class C:''"
  "func_pattern ''    y = 2'' = None" "class_pattern ''    y = 2'' = None"
  "strip ''    y = 2'' = ''y = 2''" "lstrip ''    y = 2'' = ''y = 2''"
  "func_pattern ''c = 3'' = None" "class_pattern ''c = 3'' = None"
  "strip ''c = 3'' = ''c = 3''" "lstrip ''c = 3'' = ''c = 3''"
  by code_simp+

lemma scenario_split: "split_nl (join_nl scenario_lines) = scenario_lines"
  by (rule split_join) (simp_all add: scenario_lines_def nl_def)

lemma scenario_eval:
  "map (\<lambda>c. (chunk_type c, start_line c, end_line c))
     (extract_python_chunks (join_nl scenario_lines) fp)
   = [(''block'', 1, 4), (''function'', 5, 24), (''class'', 25, 50)]"
  unfolding extract_python_chunks_def scenario_split Let_def
proof -
  have e: "scenario_lines = [''a = 1'', ''a = 1'', ''a = 1'', ''a = 1'', ''def f():'',
     ''    x = 1'', ''    x = 1'', ''    x = 1'', ''    x = 1'', ''    x = 1'',
     ''    x = 1'', ''    x = 1'', ''    x = 1'', ''    x = 1'', ''    x = 1'',
     ''    x = 1'', ''    x = 1'', ''    x = 1'', ''    x = 1'', ''    x = 1'',
     ''b = 2'', ''b = 2'', ''b = 2'', ''b = 2'', ''class C:'',
     ''    y = 2'', ''    y = 2'', ''    y = 2'', ''    y = 2'', ''    y = 2'',
     ''    y = 2'', ''    y = 2'', ''    y = 2'', ''    y = 2'', ''    y = 2'',
     ''    y = 2'', ''    y = 2'', ''    y = 2'', ''    y = 2'', ''    y = 2'',
     ''    y = 2'', ''    y = 2'', ''    y = 2'', ''    y = 2'', ''    y = 2'',
     ''c = 3'', ''c = 3'', ''c = 3'', ''c = 3'', ''c = 3'']"
    unfolding scenario_lines_def by (simp add: eval_nat_numeral)
  show "map (\<lambda>c. (chunk_type c, start_line c, end_line c))
     (case py_loop fp 0 scenario_lines [] [] 1 ''block'' of
      (chunks, current_chunk, current_start, current_type) \<Rightarrow>
        if current_chunk \<noteq> []
        then chunks @
             [CodeChunk fp (join_nl current_chunk) current_start
               (int (length scenario_lines)) current_type]
        else chunks) =
    [(''block'', 1, 4), (''function'', 5, 24), (''class'', 25, 50)]"
    unfolding e by (simp add: line_facts CodeChunk_def)
qed

lemma collect_body_takeWhile:
  "collect_body b ls = (takeWhile (body_line b) ls, dropWhile (body_line b) ls)"
proof (induction ls)
  case Nil then show ?case by simp
next
  case (Cons l ls)
  show ?case
  proof (cases "body_line b l")
    case True
    then show ?thesis using Cons.IH unfolding body_line_def by (auto simp: Let_def)
  next
    case False
    then show ?thesis unfolding body_line_def by (auto simp: Let_def)
  qed
qed

text \<open>
  Claim C2, as stated, fails: on the 50-line file the function chunk runs to line 24 and
  the class chunk to line 50, since the plain statements after each body are at the
  indentation of the definition and are not definition lines.
\<close>

theorem structural_scenario_counterexample:
  "map (\<lambda>c. (chunk_type c, start_line c, end_line c))
     (extract_python_chunks (join_nl scenario_lines) ''m.py'')
   \<noteq> [(''block'', 1, 4), (''function'', 5, 20), (''block'', 21, 24), (''class'', 25, 45),
       (''block'', 46, 50)]"
  unfolding scenario_eval by simp

lemma takeWhile_all_stop:
  "list_all P xs \<Longrightarrow> rest = [] \<or> \<not> P (hd rest) \<Longrightarrow> takeWhile P (xs @ rest) = xs"
  by (induction xs) (auto simp: takeWhile_eq_Nil_iff)

lemma dropWhile_split:
  assumes "u = takeWhile P (u @ rest) @ t"
  shows "dropWhile P (u @ rest) = t @ rest"
proof -
  have a: "takeWhile P (u @ rest) @ dropWhile P (u @ rest) = u @ rest"
    by (rule takeWhile_dropWhile_id)
  have b: "u @ rest = (takeWhile P (u @ rest) @ t) @ rest"
    by (rule arg_cong[OF assms, of "\<lambda>x. x @ rest"])
  have "takeWhile P (u @ rest) @ dropWhile P (u @ rest) = takeWhile P (u @ rest) @ (t @ rest)"
    using a b by (metis append_assoc)
  then show ?thesis by (simp only: same_append_eq)
qed

lemma chunks_ok_snoc:
  "chunks_ok L (cs @ [c]) = (if cs = [] then first_chunk L c else chunks_ok L cs \<and> definition_chunk L c)"
  by (cases cs) (auto simp: chunks_ok_def)

lemma py_open_emit:
  assumes inv: "py_open L pre rest chunks cur start ty" and ne: "cur \<noteq> []"
    and nonl: "\<forall>l\<in>set L. nl \<notin> set l" and stop: "rest = [] \<or> \<not> plain_line (hd rest)"
  shows "chunks_ok L (chunks @ [CodeChunk fp (join_nl cur) start e ty])"
proof -
  let ?c = "CodeChunk fp (join_nl cur) start e ty"
  from inv have L: "L = pre @ rest" and ok: "chunks_ok L chunks"
    and alt: "(ty = ''block'' \<and> chunks = [] \<and> cur = pre \<and> list_all plain_line pre \<and> start = 1)
       \<or> (\<exists>A d u t. pre = A @ d # u \<and> cur = d # u \<and> start = int (length A) + 1
             \<and> \<not> plain_line d \<and> ty = def_type d
             \<and> u = takeWhile (body_line (def_indent d)) (u @ rest) @ t
             \<and> list_all plain_line t \<and> (chunks = [] \<longrightarrow> A = []))"
    unfolding py_open_def by blast+
  from alt show ?thesis
  proof (elim disjE conjE exE)
    assume b: "ty = ''block''" "chunks = []" "cur = pre" "list_all plain_line pre" "start = 1"
    have cnl: "\<forall>l\<in>set cur. nl \<notin> set l" using nonl L b(3) by simp
    have spl: "split_nl (content ?c) = cur" using split_join[OF ne cnl] by (simp add: CodeChunk_def)
    have hd: "hd L = hd pre" using L b(3) ne by simp
    have "plain_line (hd pre)" using b(3,4) ne by (cases pre) simp_all
    then have pl: "plain_line (hd L)" using hd by simp
    have tw: "takeWhile plain_line L = pre" unfolding L by (rule takeWhile_all_stop[OF b(4) stop])
    have "first_chunk L ?c" unfolding first_chunk_def spl tw using pl b by (simp add: CodeChunk_def)
    then show ?thesis using b(2) by (simp add: chunks_ok_def)
  next
    fix A d u t
    assume d: "pre = A @ d # u" "cur = d # u" "start = int (length A) + 1" "\<not> plain_line d"
      "ty = def_type d" "u = takeWhile (body_line (def_indent d)) (u @ rest) @ t"
      "list_all plain_line t" "chunks = [] \<longrightarrow> A = []"
    have cnl: "\<forall>l\<in>set cur. nl \<notin> set l" using nonl L d(1,2) by simp
    have spl: "split_nl (content ?c) = d # u" using split_join[OF ne cnl] d(2) by (simp add: CodeChunk_def)
    have Ld: "L = A @ d # (u @ rest)" using L d(1) by simp
    have nth: "L ! nat (start_line ?c - 1) = d" unfolding Ld by (simp add: CodeChunk_def d(3))
    have aft: "drop (nat (start_line ?c)) L = u @ rest" unfolding Ld by (simp add: CodeChunk_def d(3) nat_add_distrib)
    have dw: "dropWhile (body_line (def_indent d)) (u @ rest) = t @ rest" by (rule dropWhile_split[OF d(6)])
    have tw: "takeWhile plain_line (t @ rest) = t" by (rule takeWhile_all_stop[OF d(7) stop])
    have body: "d # u = d # takeWhile (body_line (def_indent d)) (u @ rest)
           @ takeWhile plain_line (dropWhile (body_line (def_indent d)) (u @ rest))"
      unfolding dw tw using d(6) by simp
    have rng: "1 \<le> start_line ?c" "nat (start_line ?c) \<le> length L"
      unfolding Ld by (simp_all add: CodeChunk_def d(3) nat_add_distrib)
    have ty: "chunk_type ?c = def_type d" using d(5) by (simp add: CodeChunk_def)
    have dc: "definition_chunk L ?c"
      unfolding definition_chunk_def Let_def nth aft spl using rng d(4) ty body by blast
    show ?thesis
    proof (cases "chunks = []")
      case True
      then have "A = []" using d(8) by simp
      then have "hd L = d" "start_line ?c = 1" using Ld d(3) by (simp_all add: CodeChunk_def)
      then have "first_chunk L ?c" unfolding first_chunk_def using d(4) dc by simp
      then show ?thesis using True by (simp add: chunks_ok_def)
    next
      case False
      then show ?thesis using ok dc by (simp add: chunks_ok_snoc)
    qed
  qed
qed

lemma py_open_plain:
  assumes inv: "py_open L pre (line # rest) chunks cur start ty" and pl: "plain_line line"
  shows "py_open L (pre @ [line]) rest chunks (cur @ [line]) start ty"
proof -
  from inv have L: "L = pre @ line # rest" and ok: "chunks_ok L chunks"
    and alt: "(ty = ''block'' \<and> chunks = [] \<and> cur = pre \<and> list_all plain_line pre \<and> start = 1)
       \<or> (\<exists>A d u t. pre = A @ d # u \<and> cur = d # u \<and> start = int (length A) + 1
             \<and> \<not> plain_line d \<and> ty = def_type d
             \<and> u = takeWhile (body_line (def_indent d)) (u @ line # rest) @ t
             \<and> list_all plain_line t \<and> (chunks = [] \<longrightarrow> A = []))"
    unfolding py_open_def by blast+
  have L': "L = (pre @ [line]) @ rest" using L by simp
  from alt have "(ty = ''block'' \<and> chunks = [] \<and> cur @ [line] = pre @ [line]
         \<and> list_all plain_line (pre @ [line]) \<and> start = 1)
       \<or> (\<exists>A d u t. pre @ [line] = A @ d # u \<and> cur @ [line] = d # u \<and> start = int (length A) + 1
             \<and> \<not> plain_line d \<and> ty = def_type d
             \<and> u = takeWhile (body_line (def_indent d)) (u @ rest) @ t
             \<and> list_all plain_line t \<and> (chunks = [] \<longrightarrow> A = []))"
  proof (elim disjE conjE exE)
    assume "ty = ''block''" "chunks = []" "cur = pre" "list_all plain_line pre" "start = 1"
    then show ?thesis using pl by simp
  next
    fix A d u t
    assume d: "pre = A @ d # u" "cur = d # u" "start = int (length A) + 1" "\<not> plain_line d"
      "ty = def_type d" "u = takeWhile (body_line (def_indent d)) (u @ line # rest) @ t"
      "list_all plain_line t" "chunks = [] \<longrightarrow> A = []"
    have 1: "pre @ [line] = A @ d # (u @ [line])" using d(1) by simp
    have 2: "cur @ [line] = d # (u @ [line])" using d(2) by simp
    have 3: "u @ [line] = takeWhile (body_line (def_indent d)) ((u @ [line]) @ rest) @ (t @ [line])"
      using d(6) by simp
    have 4: "list_all plain_line (t @ [line])" using d(7) pl by simp
    show ?thesis using 1 2 3 4 d(3,4,5,8) by blast
  qed
  then show ?thesis unfolding py_open_def using L' ok by blast
qed


lemma py_open_def_step:
  assumes inv: "py_open L pre (line # rest) chunks cur start ty" and np: "\<not> plain_line line"
    and nonl: "\<forall>l\<in>set L. nl \<notin> set l"
  shows "py_open L (pre @ line # fst (collect_body (def_indent line) rest))
           (snd (collect_body (def_indent line) rest))
           (if cur \<noteq> [] then chunks @ [CodeChunk fp (join_nl cur) start e ty] else chunks)
           (line # fst (collect_body (def_indent line) rest))
           (int (length pre) + 1) (def_type line)"
proof -
  let ?P = "body_line (def_indent line)"
  let ?chunks' = "if cur \<noteq> [] then chunks @ [CodeChunk fp (join_nl cur) start e ty] else chunks"
  have cb: "fst (collect_body (def_indent line) rest) = takeWhile ?P rest"
    "snd (collect_body (def_indent line) rest) = dropWhile ?P rest"
    by (simp_all add: collect_body_takeWhile)
  from inv have L: "L = pre @ line # rest" and ok: "chunks_ok L chunks"
    and alt: "(ty = ''block'' \<and> chunks = [] \<and> cur = pre \<and> list_all plain_line pre \<and> start = 1)
       \<or> (\<exists>A d u t. pre = A @ d # u \<and> cur = d # u \<and> start = int (length A) + 1
             \<and> \<not> plain_line d \<and> ty = def_type d
             \<and> u = takeWhile (body_line (def_indent d)) (u @ line # rest) @ t
             \<and> list_all plain_line t \<and> (chunks = [] \<longrightarrow> A = []))"
    unfolding py_open_def by blast+
  have L': "L = (pre @ line # takeWhile ?P rest) @ dropWhile ?P rest" using L by simp
  have ok': "chunks_ok L ?chunks'"
  proof (cases "cur = []")
    case True then show ?thesis using ok by simp
  next
    case False
    have "chunks_ok L (chunks @ [CodeChunk fp (join_nl cur) start e ty])"
      by (rule py_open_emit[OF inv False nonl]) (simp add: np)
    then show ?thesis using False by simp
  qed
  have empty: "?chunks' = [] \<longrightarrow> pre = []"
  proof
    assume e: "?chunks' = []"
    then have ce: "cur = []" by (cases "cur = []") simp_all
    from alt ce show "pre = []" by auto
  qed
  have u: "takeWhile ?P rest = takeWhile ?P (takeWhile ?P rest @ dropWhile ?P rest) @ []" by simp
  have "\<exists>A d u t. pre @ line # takeWhile ?P rest = A @ d # u \<and> line # takeWhile ?P rest = d # u
             \<and> int (length pre) + 1 = int (length A) + 1
             \<and> \<not> plain_line d \<and> def_type line = def_type d
             \<and> u = takeWhile (body_line (def_indent d)) (u @ dropWhile ?P rest) @ t
             \<and> list_all plain_line t \<and> (?chunks' = [] \<longrightarrow> A = [])"
    apply (rule exI[of _ pre], rule exI[of _ line], rule exI[of _ "takeWhile ?P rest"], rule exI[of _ "[]"])
    using np u empty by simp
  then show ?thesis unfolding cb py_open_def using L' ok' by blast
qed

lemma py_loop_open:
  "py_open L pre rest chunks cur start ty \<Longrightarrow> i = length pre \<Longrightarrow> \<forall>l\<in>set L. nl \<notin> set l
   \<Longrightarrow> (case py_loop fp i rest chunks cur start ty of
         (chunks', cur', start', ty') \<Rightarrow> py_open L L [] chunks' cur' start' ty')"
proof (induction fp i rest chunks cur start ty arbitrary: pre rule: py_loop.induct)
  case (1 fp i chunks cur start ty)
  from "1.prems"(1) have "L = pre" unfolding py_open_def by simp
  then show ?case using "1.prems"(1) by simp
next
  case (2 fp i line rest chunks cur start ty)
  note p = "2.prems"
  show ?case
  proof (cases "func_pattern line \<noteq> None \<or> class_pattern line \<noteq> None")
    case False
    then have pl: "plain_line line" by (simp add: plain_line_def)
    have inv: "py_open L (pre @ [line]) rest chunks (cur @ [line]) start ty"
      by (rule py_open_plain[OF p(1) pl])
    have i': "i + 1 = length (pre @ [line])" using p(2) by simp
    have "case py_loop fp (i + 1) rest chunks (cur @ [line]) start ty of
         (chunks', cur', start', ty') \<Rightarrow> py_open L L [] chunks' cur' start' ty'"
      by (rule "2.IH"(2)[OF False inv i' p(3)])
    then show ?thesis using False by (simp only: py_loop.simps if_False)
  next
    case True
    then have np: "\<not> plain_line line" by (simp add: plain_line_def)
    have bi: "(case func_pattern line of Some n \<Rightarrow> n
                | None \<Rightarrow> (case class_pattern line of Some n \<Rightarrow> n | None \<Rightarrow> 0)) = def_indent line"
      by (simp add: def_indent_def)
    have ty: "(if func_pattern line \<noteq> None then ''function'' else ''class'') = def_type line"
      by (simp add: def_type_def)
    let ?body = "fst (collect_body (def_indent line) rest)"
    let ?rest' = "snd (collect_body (def_indent line) rest)"
    let ?chunks' = "if cur \<noteq> [] then chunks @ [CodeChunk fp (join_nl cur) start (int i) ty] else chunks"
    have inv: "py_open L (pre @ line # ?body) ?rest' ?chunks' (line # ?body) (int (length pre) + 1) (def_type line)"
      by (rule py_open_def_step[OF p(1) np p(3)])
    have inv': "py_open L (pre @ line # ?body) ?rest' ?chunks' (line # ?body) (int i + 1) (def_type line)"
      using inv p(2) by simp
    have i': "i + 1 + length ?body = length (pre @ line # ?body)" using p(2) by simp
    have "case py_loop fp (i + 1 + length ?body) ?rest' ?chunks' (line # ?body) (int i + 1) (def_type line) of
         (chunks', cur', start', ty') \<Rightarrow> py_open L L [] chunks' cur' start' ty'"
      by (rule "2.IH"(1)[OF True refl refl, unfolded bi ty, OF inv' i' p(3)])
    then show ?thesis using True unfolding py_loop.simps Let_def bi ty by (simp only: if_True)
  qed
qed

lemma extract_python_chunks_ok:
  "chunks_ok (split_nl src) (extract_python_chunks src fp)"
proof -
  define L where "L = split_nl src"
  have nonl: "\<forall>l\<in>set L. nl \<notin> set l" unfolding L_def using split_nl_no_nl by blast
  have Lne: "L \<noteq> []" unfolding L_def by (rule split_nl_nonempty)
  obtain chunks cur start ty where r: "py_loop fp 0 L [] [] 1 ''block'' = (chunks, cur, start, ty)"
    using prod_cases4 by blast
  have init: "py_open L [] L [] [] 1 ''block''" by (simp add: py_open_def chunks_ok_def)
  have "case py_loop fp 0 L [] [] 1 ''block'' of
         (chunks', cur', start', ty') \<Rightarrow> py_open L L [] chunks' cur' start' ty'"
    by (rule py_loop_open[OF init _ nonl]) simp
  then have inv: "py_open L L [] chunks cur start ty" unfolding r by simp
  have cne: "cur \<noteq> []" using inv Lne unfolding py_open_def by auto
  have "chunks_ok L (chunks @ [CodeChunk fp (join_nl cur) start (int (length L)) ty])"
    by (rule py_open_emit[OF inv cne nonl]) simp
  moreover have "extract_python_chunks src fp = chunks @ [CodeChunk fp (join_nl cur) start (int (length L)) ty]"
    unfolding extract_python_chunks_def L_def[symmetric] Let_def r prod.case using cne by simp
  ultimately show ?thesis unfolding L_def by simp
qed

lemma is_slice_length:
  assumes "is_slice L c" and "\<forall>l\<in>set L. nl \<notin> set l"
  shows "end_line c = start_line c + int (length (split_nl (content c))) - 1"
proof -
  obtain s0 e where s: "start_line c = int s0 + 1" and e: "end_line c = int e"
    and lt: "s0 < e" and el: "e \<le> length L" and ct: "content c = join_nl (drop s0 (take e L))"
    using assms(1) by (rule is_slice_elim)
  have ne: "drop s0 (take e L) \<noteq> []" using lt el by simp
  have nn: "\<forall>l\<in>set (drop s0 (take e L)). nl \<notin> set l"
    using assms(2) by (meson in_set_dropD in_set_takeD)
  have "split_nl (content c) = drop s0 (take e L)" unfolding ct by (rule split_join[OF ne nn])
  then have "length (split_nl (content c)) = e - s0" using el by simp
  then show ?thesis using s e lt by simp
qed

text \<open>
  Claim C2, amended. For every definition the main loop of structural chunking finds,
  the emitted chunk has the type of the definition line and consists of that line,
  followed by the lines the inner loop consumes for the indentation of that line (the
  longest run of following lines that are blank, or indented deeper than the definition
  line, or at the definition's own indentation without being def/class lines), followed
  by the lines from there up to the next def/class line; so the chunk ends right before
  the first def/class line after the consumed run, or at the end of the file. Every
  chunk but the first is such a chunk; the first is one as well when the file begins
  with a definition line, and otherwise is the block of the lines before the first
  def/class line. Each chunk ends as many lines after its start as it has lines. In
  particular the 50-line file with one top-level function at lines 5 to 20 and one
  top-level class at lines 25 to 45 yields block 1 to 4, function 5 to 24 and class 25
  to 50.
\<close>

theorem structural_definition_chunks:
  "(case extract_python_chunks src fp of
      [] \<Rightarrow> False
    | c # cs \<Rightarrow> first_chunk (split_nl src) c \<and> list_all (definition_chunk (split_nl src)) cs)
   \<and> list_all (\<lambda>c. end_line c = start_line c + int (length (split_nl (content c))) - 1)
        (extract_python_chunks src fp)
   \<and> map (\<lambda>c. (chunk_type c, start_line c, end_line c))
        (extract_python_chunks (join_nl scenario_lines) fp)
       = [(''block'', 1, 4), (''function'', 5, 24), (''class'', 25, 50)]"
proof -
  let ?L = "split_nl src" and ?cs = "extract_python_chunks src fp"
  have t: "tiled 1 ?cs (int (length ?L))"
    and s: "\<forall>c\<in>set ?cs. is_slice ?L c \<and> file_path c = fp"
    using extract_python_chunks_tiled[of src fp] by simp_all
  have ne: "?cs \<noteq> []"
  proof
    assume "?cs = []"
    then have "int (length ?L) = 0" using t by simp
    then show False using split_nl_nonempty[of src] by simp
  qed
  have ok: "chunks_ok ?L ?cs" by (rule extract_python_chunks_ok)
  have a: "case ?cs of [] \<Rightarrow> False
    | c # cs \<Rightarrow> first_chunk ?L c \<and> list_all (definition_chunk ?L) cs"
    using ok ne unfolding chunks_ok_def by (cases ?cs) simp_all
  have nonl: "\<forall>l\<in>set ?L. nl \<notin> set l" using split_nl_no_nl by blast
  have b: "list_all (\<lambda>c. end_line c = start_line c + int (length (split_nl (content c))) - 1) ?cs"
    unfolding list_all_iff using s is_slice_length[OF _ nonl] by blast
  show ?thesis using a b scenario_eval by blast
qed

text \<open>
  An instance with an indented definition, a body line, a dedented plain line and a
  top-level plain line: one function chunk, lines 1 to 4.
\<close>

theorem structural_definition_chunks_witness:
  "extract_python_chunks (''    def f():'' @ nl # ''        a'' @ nl # ''  b'' @ nl # ''c'') ''m.py''
     = [CodeChunk ''m.py'' (''    def f():'' @ nl # ''        a'' @ nl # ''  b'' @ nl # ''c'')
          1 4 ''function'']
   \<and> first_chunk (split_nl (''    def f():'' @ nl # ''        a'' @ nl # ''  b'' @ nl # ''c''))
        (CodeChunk ''m.py'' (''    def f():'' @ nl # ''        a'' @ nl # ''  b'' @ nl # ''c'')
          1 4 ''function'')"
proof -
  have e: "extract_python_chunks
        (''    def f():'' @ nl # ''        a'' @ nl # ''  b'' @ nl # ''c'') ''m.py''
     = [CodeChunk ''m.py'' (''    def f():'' @ nl # ''        a'' @ nl # ''  b'' @ nl # ''c'')
          1 4 ''function'']"
    by code_simp
  show ?thesis
    using structural_definition_chunks
      [of "''    def f():'' @ nl # ''        a'' @ nl # ''  b'' @ nl # ''c''" "''m.py''"]
    unfolding e by simp
qed

subsection \<open>Retrieval\<close>

lemma retrieve_loop_props:
  assumes "0 < top_k" "int (length kept) < top_k" "token_sum kept = tot" "tot \<le> max_tokens"
    "distinct (fingerprints h kept)" "set (fingerprints h kept) \<subseteq> seen"
  shows "int (length (retrieve_loop h top_k max_tokens rs seen kept tot)) \<le> top_k
    \<and> token_sum (retrieve_loop h top_k max_tokens rs seen kept tot) \<le> max_tokens
    \<and> distinct (fingerprints h (retrieve_loop h top_k max_tokens rs seen kept tot))
    \<and> (\<exists>ys. retrieve_loop h top_k max_tokens rs seen kept tot = kept @ ys \<and> subseq ys rs)"
  using assms
proof (induction rs arbitrary: seen kept tot)
  case Nil
  then show ?case by simp
next
  case (Cons r rs)
  obtain chunk score where r: "r = (chunk, score)" by (cases r)
  let ?hc = "h (take 500 (content chunk))"
  let ?tk = "estimate_tokens (content chunk)"
  show ?case
  proof (cases "?hc \<in> seen")
    case True
    have eq: "retrieve_loop h top_k max_tokens (r # rs) seen kept tot
       = retrieve_loop h top_k max_tokens rs seen kept tot"
      using True by (simp add: r)
    from Cons.IH[OF Cons.prems] show ?thesis unfolding eq
      by (meson list_emb_Cons)
  next
    case False
    note unseen = False
    have sub': "set (fingerprints h kept) \<subseteq> insert ?hc seen" using Cons.prems(6) by blast
    show ?thesis
    proof (cases "tot + ?tk > max_tokens")
      case True
      have eq: "retrieve_loop h top_k max_tokens (r # rs) seen kept tot
         = retrieve_loop h top_k max_tokens rs (insert ?hc seen) kept tot"
        using unseen True by (simp add: r Let_def)
      from Cons.IH[OF Cons.prems(1-5) sub'] show ?thesis unfolding eq
        by (meson list_emb_Cons)
    next
      case False
      let ?kept' = "kept @ [(chunk, score)]"
      have ts: "token_sum ?kept' = tot + ?tk" using Cons.prems(3) by (simp add: token_sum_def)
      have le: "tot + ?tk \<le> max_tokens" using False by simp
      have notin: "?hc \<notin> set (fingerprints h kept)" using unseen Cons.prems(6) by blast
      have d: "distinct (fingerprints h ?kept')" using Cons.prems(5) notin by (simp add: fingerprints_def)
      have s: "set (fingerprints h ?kept') \<subseteq> insert ?hc seen"
        using Cons.prems(6) by (auto simp: fingerprints_def)
      show ?thesis
      proof (cases "int (length ?kept') \<ge> top_k")
        case True
        have eq: "retrieve_loop h top_k max_tokens (r # rs) seen kept tot = ?kept'"
          using unseen False True by (simp add: r Let_def)
        have "int (length ?kept') \<le> top_k" using Cons.prems(2) by simp
        moreover have "subseq [(chunk, score)] (r # rs)" by (simp add: r)
        ultimately show ?thesis unfolding eq using ts le d by auto
      next
        case stop: False
        have eq: "retrieve_loop h top_k max_tokens (r # rs) seen kept tot
           = retrieve_loop h top_k max_tokens rs (insert ?hc seen) ?kept' (tot + ?tk)"
          using unseen False stop by (simp add: r Let_def)
        have lt: "int (length ?kept') < top_k" using stop by simp
        from Cons.IH[OF Cons.prems(1) lt ts le d s]
        obtain ys where ys: "retrieve_loop h top_k max_tokens rs (insert ?hc seen) ?kept' (tot + ?tk) = ?kept' @ ys"
          "subseq ys rs" and rest: "int (length (retrieve_loop h top_k max_tokens rs (insert ?hc seen) ?kept' (tot + ?tk))) \<le> top_k"
          "token_sum (retrieve_loop h top_k max_tokens rs (insert ?hc seen) ?kept' (tot + ?tk)) \<le> max_tokens"
          "distinct (fingerprints h (retrieve_loop h top_k max_tokens rs (insert ?hc seen) ?kept' (tot + ?tk)))"
          by blast
        have "retrieve_loop h top_k max_tokens rs (insert ?hc seen) ?kept' (tot + ?tk) = kept @ ((chunk, score) # ys)"
          using ys(1) by simp
        moreover have "subseq ((chunk, score) # ys) (r # rs)" using ys(2) by (simp add: r)
        ultimately show ?thesis unfolding eq using rest by blast
      qed
    qed
  qed
qed

lemma demo_store_eval:
  "demo_store = \<lparr>store_model_loaded = True, store_index = None, store_chunks = demo_chunks,
      store_embeddings = Some \<lparr>nd_rows = [[24, 1], [16, 1], [24, 1]], nd_cols = Some 2\<rparr>\<rparr>"
  by (simp add: demo_store_def embed_chunks_def load_model_def new_store_def demo_env_def
      init_faiss_index_def demo_chunks_def CodeChunk_def Let_def)

lemma demo_search_eval:
  "search demo_env demo_store ''q'' 4 =
     (Inr [(CodeChunk ''b.py'' ''def f(): pass'' 1 1 ''function'', 24),
           (CodeChunk ''a.py'' ''def f(): pass'' 1 1 ''function'', 24),
           (CodeChunk ''a.py'' ''x = 1'' 2 2 ''block'', 16)], demo_store)"
  unfolding demo_store_eval
  by (simp add: search_def load_model_def demo_env_def similarities_def dot_def
      py_slice_from_def py_index_def demo_chunks_def upt_rec Let_def)

lemma sorted_wrt_subseq: "subseq xs ys \<Longrightarrow> sorted_wrt P ys \<Longrightarrow> sorted_wrt P xs"
proof (induction rule: list_emb.induct)
  case (list_emb_Nil ys)
  then show ?case by simp
next
  case (list_emb_Cons xs ys y)
  then show ?case by simp
next
  case (list_emb_Cons2 x y xs ys)
  have "set xs \<subseteq> set ys" using list_emb_Cons2.hyps(2) by (auto dest: list_emb_set)
  then show ?case using list_emb_Cons2 by auto
qed

text \<open>
  Claim C5. For every query and positive \<open>top_k\<close> and \<open>max_tokens\<close>, \<open>retrieve\<close> passes on
  the error of \<open>search\<close>, or returns at most \<open>top_k\<close> pairs whose estimated token counts
  sum to at most \<open>max_tokens\<close>, whose fingerprints (the hash of the first 500 content
  characters) are pairwise different, and which form a subsequence of what \<open>search\<close>
  produced, so that they are in descending score order when the search results are.
\<close>

theorem retrieve_bounded:
  assumes "0 < top_k" and "0 < max_tokens"
  shows "case search e store query (top_k * 2) of
           (Inl err, store') \<Rightarrow> retrieve e store query top_k max_tokens = (Inl err, store')
         | (Inr results, store') \<Rightarrow>
             (\<exists>rs. retrieve e store query top_k max_tokens = (Inr rs, store')
                \<and> int (length rs) \<le> top_k \<and> token_sum rs \<le> max_tokens
                \<and> distinct (fingerprints (py_hash e) rs) \<and> subseq rs results
                \<and> (sorted_wrt (\<ge>) (map snd results) \<longrightarrow> sorted_wrt (\<ge>) (map snd rs)))"
proof (cases "search e store query (top_k * 2)")
  case (Pair r store')
  show ?thesis
  proof (cases r)
    case (Inl err)
    then show ?thesis using Pair by (simp add: retrieve_def)
  next
    case (Inr results)
    let ?rs = "retrieve_loop (py_hash e) top_k max_tokens results {} [] 0"
    have p: "int (length ?rs) \<le> top_k \<and> token_sum ?rs \<le> max_tokens
        \<and> distinct (fingerprints (py_hash e) ?rs) \<and> (\<exists>ys. ?rs = [] @ ys \<and> subseq ys results)"
      using assms by (intro retrieve_loop_props) (simp_all add: token_sum_def fingerprints_def)
    then have sub: "subseq ?rs results" by simp
    then have "subseq (map snd ?rs) (map snd results)" by (rule subseq_map)
    then have "sorted_wrt (\<ge>) (map snd results) \<longrightarrow> sorted_wrt (\<ge>) (map snd ?rs)"
      using sorted_wrt_subseq by blast
    moreover have "retrieve e store query top_k max_tokens = (Inr ?rs, store')"
      using Pair Inr by (simp add: retrieve_def)
    ultimately show ?thesis using Pair Inr p sub by simp
  qed
qed

theorem retrieve_bounded_witness:
  "\<exists>rs. retrieve demo_env demo_store ''q'' 2 100 = (Inr rs, demo_store)
      \<and> length rs = 2 \<and> int (length rs) \<le> 2 \<and> token_sum rs \<le> 100
      \<and> distinct (fingerprints (py_hash demo_env) rs)
      \<and> sorted_wrt (\<ge>) (map snd rs)"
proof -
  have r: "retrieve demo_env demo_store ''q'' 2 100 =
     (Inr [(CodeChunk ''b.py'' ''def f(): pass'' 1 1 ''function'', 24),
           (CodeChunk ''a.py'' ''x = 1'' 2 2 ''block'', 16)], demo_store)"
    using demo_search_eval by (simp add: retrieve_def demo_env_def CodeChunk_def estimate_tokens_def)
  show ?thesis
    using retrieve_bounded[of 2 100 demo_env demo_store "''q''"] demo_search_eval
    unfolding r by (simp add: CodeChunk_def)
qed

subsection \<open>Searching an empty store\<close>

text \<open>
  Claim C7. \<open>search\<close> raises \<open>ValueError\<close> and leaves the store as it was whenever the
  store has no embeddings or no chunks: in particular on a new store, before any build
  or load, and on a new store after \<open>embed_chunks\<close> was run on zero chunks (however that
  run ended). It never returns results then.
\<close>

theorem search_unpopulated:
  "(store_embeddings store = None \<or> store_chunks store = []
      \<longrightarrow> search e store query top_k = (Inl ValueError, store))
   \<and> search e new_store query top_k = (Inl ValueError, new_store)
   \<and> search e (snd (embed_chunks e new_store [])) query top_k
       = (Inl ValueError, snd (embed_chunks e new_store []))"
proof -
  have a: "store_embeddings s = None \<or> store_chunks s = []
      \<Longrightarrow> search e s query top_k = (Inl ValueError, s)" for s
    by (auto simp: search_def)
  have b: "store_embeddings (snd (embed_chunks e new_store [])) = None
      \<or> store_chunks (snd (embed_chunks e new_store [])) = []"
    by (simp add: embed_chunks_def load_model_def new_store_def init_faiss_index_def Let_def
        split: option.splits)
  show ?thesis using a[of store] a[of new_store] a[OF b] by (simp add: new_store_def)
qed

theorem search_unpopulated_witness:
  "store_embeddings new_store = None
   \<and> search demo_env new_store ''q'' 3 = (Inl ValueError, new_store)
   \<and> store_chunks (snd (embed_chunks demo_env new_store [])) = []
   \<and> search demo_env (snd (embed_chunks demo_env new_store [])) ''q'' 3
       = (Inl ValueError, snd (embed_chunks demo_env new_store []))"
  using search_unpopulated[of new_store demo_env "''q''" 3]
  by (simp add: new_store_def embed_chunks_def load_model_def demo_env_def
      init_faiss_index_def Let_def)

subsection \<open>Search order\<close>


















subsection \<open>Saving and loading\<close>

lemma chunk_json_roundtrip: "chunk_of_json (chunk_to_json c) = Inr c"
  by (simp add: chunk_of_json_def chunk_to_json_def json_string_def json_int_def CodeChunk_def)

lemma chunks_json_roundtrip: "chunks_of_json (JArray (map chunk_to_json cs)) = Inr cs"
proof -
  have "collect_results chunk_of_json (map chunk_to_json cs) = Inr cs"
    by (induction cs) (simp_all add: chunk_json_roundtrip)
  then show ?thesis by (simp add: chunks_of_json_def)
qed

text \<open>
  Claim C4. For every populated index (a store whose embeddings are a two-dimensional
  array), \<open>save(name)\<close> followed by \<open>load(name)\<close> into a new store succeeds and yields a
  store with the same chunk sequence (every field of every chunk) and the same embedding
  array as the one saved, whatever the directory held before and whether or not FAISS
  is present.
\<close>

theorem save_load_roundtrip:
  assumes "store_embeddings store = Some a" and "nd_cols a = Some d"
  shows "\<exists>store'. load e new_store name (save store name dirs) = (Inr True, store')
           \<and> store_chunks store' = store_chunks store
           \<and> store_embeddings store' = store_embeddings store"
  using assms
  by (auto simp: load_def save_def Let_def chunks_json_roundtrip new_store_def empty_dir_def
      init_faiss_index_def split: option.splits)

theorem save_load_roundtrip_witness:
  "\<exists>store'. load demo_env new_store ''default'' (save demo_store ''default'' Map.empty)
             = (Inr True, store')
           \<and> store_chunks store' = demo_chunks
           \<and> store_embeddings store'
               = Some \<lparr>nd_rows = [[24, 1], [16, 1], [24, 1]], nd_cols = Some 2\<rparr>"
  using save_load_roundtrip[of demo_store "\<lparr>nd_rows = [[24, 1], [16, 1], [24, 1]], nd_cols = Some 2\<rparr>"
      2 demo_env "''default''" Map.empty]
  by (simp add: demo_store_eval)

end
